theory Spec2Isabelle
  imports Main
begin

section \<open>Data model\<close>

text \<open>
  The entities of \<^verbatim>\<open>src/services/notes.js\<close> are rows of SQLite tables, read into
  JavaScript objects. Each entity is a record; every field name carries the initial of
  its entity, because the entities share field names (\<^verbatim>\<open>noteId\<close>, \<^verbatim>\<open>isDeleted\<close>).

  \<^item> A stored flag (\<^verbatim>\<open>isDeleted\<close>, \<^verbatim>\<open>isExpanded\<close>) is an SQLite integer 0 or 1; the
    source writes it as \<^verbatim>\<open>0\<close>/\<^verbatim>\<open>1\<close> or \<^verbatim>\<open>false\<close>/\<^verbatim>\<open>true\<close> and the queries test
    \<^verbatim>\<open>isDeleted = 0\<close>. The source compares one flag with a strict operator:
    \<^verbatim>\<open>branch.isDeleted === 1\<close> in \<^verbatim>\<open>deleteNote\<close>, which the number 1 satisfies and the
    boolean \<^verbatim>\<open>true\<close> does not. The flag of a branch is therefore a \<open>flag\<close>, a
    JavaScript number or boolean; the other flags, which the source only assigns or
    tests in SQL, are kept as \<open>bool\<close>.
  \<^item> \<^verbatim>\<open>isProtected\<close> is compared with \<^verbatim>\<open>!==\<close> in \<^verbatim>\<open>protectNote\<close> and
    \<^verbatim>\<open>protectNoteRevisions\<close>. The model compares the truth values; where the source
    holds a stored 0 or 1 on one side and a boolean on the other, it issues a write of
    the same truth value that the model does not issue. Such a write stores the truth
    value that the row already has.
  \<^item> \<^verbatim>\<open>title\<close>, \<^verbatim>\<open>content\<close> and \<^verbatim>\<open>isProtected\<close> are assigned from the caller's
    update object without a check, so they may be \<^verbatim>\<open>undefined\<close>: \<open>None\<close>.
  \<^item> Timestamps are strings in the store. The date utilities are not part of
    \<^verbatim>\<open>notes.js\<close>; a timestamp is represented by its value in milliseconds
    (see \<open>env\<close> below).
  \<^item> \<^verbatim>\<open>notePosition\<close> is an integer in the store: \<open>int\<close>. Read into JavaScript it
    is a Number, which is exact only up to \<open>2 ^ 53\<close> (see \<open>to_Number\<close> below).
\<close>

datatype flag =
  Num int
| Bool bool

record Note =
  n_noteId :: string
  n_title :: "string option"
  n_content :: "string option"
  n_type :: string
  n_mime :: string
  n_isProtected :: "bool option"
  n_isDeleted :: bool
  n_dateCreated :: int
  n_dateModified :: int

record Branch =
  b_branchId :: string
  b_noteId :: string
  b_parentNoteId :: string
  b_notePosition :: int
  b_isExpanded :: bool
  b_isDeleted :: flag

record NoteRevision =
  r_noteRevisionId :: string
  r_noteId :: string
  r_title :: "string option"
  r_content :: "string option"
  r_isProtected :: "bool option"
  r_dateModifiedFrom :: int
  r_dateModifiedTo :: int

record NoteImage =
  i_noteImageId :: string
  i_noteId :: string
  i_imageId :: string
  i_isDeleted :: bool

record Label =
  l_noteId :: string
  l_name :: string
  l_value :: string
  l_isDeleted :: bool

text \<open>
  One entry of the write log: an entity handed to \<^verbatim>\<open>repository.updateEntity\<close> (or
  saved by its own \<^verbatim>\<open>save()\<close>), or the \<^verbatim>\<open>UPDATE\<close> statement that shifts sibling
  positions.
\<close>

datatype db_write =
  W_note Note
| W_branch Branch
| W_note_revision NoteRevision
| W_note_image NoteImage
| W_shift_positions string int

text \<open>
  The store: the five tables as lists of rows, the list of note-reordering sync entries
  (\<^verbatim>\<open>sync_table.addNoteReorderingSync\<close>), the log of writes in the order they were
  issued, and the number of identifiers drawn from the generators so far.
\<close>

record db =
  d_notes :: "Note list"
  d_branches :: "Branch list"
  d_note_revisions :: "NoteRevision list"
  d_note_images :: "NoteImage list"
  d_labels :: "Label list"
  d_note_reordering_sync :: "string list"
  d_writes :: "db_write list"
  d_ids_drawn :: nat

text \<open>
  Modelled from the spec: the configuration store, the clock and the identifier
  generators (\<^verbatim>\<open>options.js\<close>, \<^verbatim>\<open>utils.js\<close>) are not in the sources; \<open>env\<close>
  holds what a call reads from them.
  \<^item> \<open>now\<close> is \<^verbatim>\<open>new Date().getTime()\<close> and \<open>nowDate\<close> is \<^verbatim>\<open>utils.nowDate()\<close>, two
    readings of the clock. \<^verbatim>\<open>utils.dateStr\<close> and \<^verbatim>\<open>utils.parseDateTime\<close> convert
    between instants and strings so that the order of the strings is the order of the
    instants; both sides of every comparison are therefore kept in milliseconds.
  \<^item> \<open>snapshot_interval\<close> is
    \<^verbatim>\<open>parseInt(options.getOption('note_revision_snapshot_time_interval'))\<close>, in seconds.
  \<^item> \<open>newNoteRevisionId k\<close> and \<open>newNoteImageId k\<close> are the opaque strings the
    generators return at the \<open>k\<close>-th draw.
\<close>

record env =
  now :: int
  nowDate :: int
  snapshot_interval :: int
  newNoteRevisionId :: "nat \<Rightarrow> string"
  newNoteImageId :: "nat \<Rightarrow> string"

datatype error =
  TypeError
| Error string

section \<open>The entity repository\<close>

text \<open>
  Modelled from the spec: \<^verbatim>\<open>repository.updateEntity(entity)\<close> and the entities'
  \<^verbatim>\<open>save()\<close> (\<^verbatim>\<open>repository.js\<close>, \<^verbatim>\<open>entities/*.js\<close>) persist the entity: the row
  with the entity's primary key is replaced, or inserted when there is none. Every call
  is appended to the write log. SQLite has no boolean: a flag that is \<^verbatim>\<open>false\<close> or
  \<^verbatim>\<open>true\<close> in the entity is stored as 0 or 1 (\<open>to_sql\<close>), and a later read returns
  the number.
\<close>

fun to_sql :: "flag \<Rightarrow> flag" where
  "to_sql (Bool b) = Num (if b then 1 else 0)"
| "to_sql (Num k) = Num k"

definition replace_row :: "('a \<Rightarrow> string) \<Rightarrow> 'a list \<Rightarrow> 'a \<Rightarrow> 'a list" where
  "replace_row key rows e = filter (\<lambda>r. key r \<noteq> key e) rows @ [e]"

definition updateEntity_note :: "db \<Rightarrow> Note \<Rightarrow> db" where
  "updateEntity_note d e =
     d\<lparr>d_notes := replace_row n_noteId (d_notes d) e, d_writes := d_writes d @ [W_note e]\<rparr>"

definition updateEntity_branch :: "db \<Rightarrow> Branch \<Rightarrow> db" where
  "updateEntity_branch d e =
     d\<lparr>d_branches := replace_row b_branchId (d_branches d) (e\<lparr>b_isDeleted := to_sql (b_isDeleted e)\<rparr>),
       d_writes := d_writes d @ [W_branch e]\<rparr>"

definition updateEntity_note_revision :: "db \<Rightarrow> NoteRevision \<Rightarrow> db" where
  "updateEntity_note_revision d e =
     d\<lparr>d_note_revisions := replace_row r_noteRevisionId (d_note_revisions d) e,
       d_writes := d_writes d @ [W_note_revision e]\<rparr>"

definition updateEntity_note_image :: "db \<Rightarrow> NoteImage \<Rightarrow> db" where
  "updateEntity_note_image d e =
     d\<lparr>d_note_images := replace_row i_noteImageId (d_note_images d) e,
       d_writes := d_writes d @ [W_note_image e]\<rparr>"

text \<open>
  Modelled from the spec: \<^verbatim>\<open>repository.getNote(noteId)\<close> returns the row with this key,
  \<^verbatim>\<open>null\<close> when there is none.
\<close>

definition getNote :: "db \<Rightarrow> string \<Rightarrow> Note option" where
  "getNote d noteId = find (\<lambda>n. n_noteId n = noteId) (d_notes d)"

section \<open>Position allocator\<close>

text \<open>
  \<^verbatim>\<open>SELECT MAX(notePosition) FROM branches WHERE parentNoteId = ? AND isDeleted = 0\<close>:
  the rows the query ranges over, and its value (\<^verbatim>\<open>null\<close> on no row).
\<close>

definition siblings :: "db \<Rightarrow> string \<Rightarrow> Branch list" where
  "siblings d parentNoteId =
     filter (\<lambda>b. b_parentNoteId b = parentNoteId \<and> b_isDeleted b = Num 0) (d_branches d)"

definition max_notePosition :: "db \<Rightarrow> string \<Rightarrow> int option" where
  "max_notePosition d parentNoteId =
     (case map b_notePosition (siblings d parentNoteId) of
        [] \<Rightarrow> None
      | p # ps \<Rightarrow> Some (Max (set (p # ps))))"

text \<open>\<^verbatim>\<open>SELECT notePosition FROM branches WHERE branchId = ?\<close>, first row or \<^verbatim>\<open>null\<close>.\<close>

definition notePosition_of :: "db \<Rightarrow> string \<Rightarrow> int option" where
  "notePosition_of d branchId =
     map_option b_notePosition (find (\<lambda>b. b_branchId b = branchId) (d_branches d))"

text \<open>
  \<^verbatim>\<open>UPDATE branches SET notePosition = notePosition + 1
  WHERE parentNoteId = ? AND notePosition > ? AND isDeleted = 0\<close>.
\<close>

definition shifted :: "string \<Rightarrow> int \<Rightarrow> Branch \<Rightarrow> bool" where
  "shifted parentNoteId p b \<longleftrightarrow>
     b_parentNoteId b = parentNoteId \<and> b_notePosition b > p \<and> b_isDeleted b = Num 0"

definition shift_positions :: "db \<Rightarrow> string \<Rightarrow> int \<Rightarrow> db" where
  "shift_positions d parentNoteId p =
     d\<lparr>d_branches :=
         map (\<lambda>b. if shifted parentNoteId p b
                   then b\<lparr>b_notePosition := b_notePosition b + 1\<rparr> else b) (d_branches d),
       d_writes := d_writes d @ [W_shift_positions parentNoteId p]\<rparr>"

text \<open>
  Modelled from the spec: \<^verbatim>\<open>sync_table.addNoteReorderingSync(parentNoteId)\<close>
  (\<^verbatim>\<open>sync_table.js\<close> is not in the sources) records that the order of the parent's
  children changed, one entry for each call.
\<close>

definition addNoteReorderingSync :: "db \<Rightarrow> string \<Rightarrow> db" where
  "addNoteReorderingSync d parentNoteId =
     d\<lparr>d_note_reordering_sync := d_note_reordering_sync d @ [parentNoteId]\<rparr>"

text \<open>
  A position is read from the store into a JavaScript Number, an IEEE 754 double, and
  line 18 and line 23 add 1 to that Number. The integers the store holds are 64-bit, so
  a Number that holds one is an integer as well; it is the integer itself up to
  \<open>2 ^ 53\<close> in magnitude, and beyond that the nearest integer with 53 significant bits,
  a tie going to the even significand. \<open>bit_length\<close> is the number of binary digits.
\<close>

function bit_length :: "int \<Rightarrow> nat" where
  "bit_length a = (if a \<le> 0 then 0 else Suc (bit_length (a div 2)))"
  by pat_completeness auto
termination
  by (relation "measure nat") auto

declare bit_length.simps [simp del]

definition to_Number :: "int \<Rightarrow> int" where
  "to_Number x =
     (if \<bar>x\<bar> \<le> 2 ^ 53 then x
      else
        (let a = \<bar>x\<bar>;
             e = bit_length a - 53;
             q = a div 2 ^ e;
             r = a mod 2 ^ e;
             q' = (if 2 * r > 2 ^ e \<or> (2 * r = 2 ^ e \<and> odd q) then q + 1 else q)
         in sgn x * (q' * 2 ^ e)))"

text \<open>The sum of two Numbers that hold integers: the exact sum, rounded.\<close>

definition Number_add :: "int \<Rightarrow> int \<Rightarrow> int" where
  "Number_add x y = to_Number (x + y)"

text \<open>The two fields of \<^verbatim>\<open>noteOpts\<close> that \<^verbatim>\<open>getNewNotePosition\<close> reads.\<close>

record note_opts =
  target :: string
  target_branchId :: string

text \<open>
  \<^verbatim>\<open>getNewNotePosition(parentNoteId, noteOpts)\<close>. \<^verbatim>\<open>sql.getValue\<close> and
  \<^verbatim>\<open>sql.getRow\<close> hand the position over as a Number; the \<^verbatim>\<open>UPDATE\<close> compares and
  increments inside the store, on its integers. Reading \<^verbatim>\<open>afterNote.notePosition\<close> of a
  missing reference branch raises a TypeError; an unknown target raises an Error.
\<close>

definition getNewNotePosition :: "db \<Rightarrow> string \<Rightarrow> note_opts \<Rightarrow> error + (int \<times> db)" where
  "getNewNotePosition d parentNoteId noteOpts =
     (if target noteOpts = ''into'' then
        (case max_notePosition d parentNoteId of
           None \<Rightarrow> Inr (0, d)
         | Some maxNotePos \<Rightarrow> Inr (Number_add (to_Number maxNotePos) 1, d))
      else if target noteOpts = ''after'' then
        (case notePosition_of d (target_branchId noteOpts) of
           None \<Rightarrow> Inl TypeError
         | Some p \<Rightarrow>
             (let afterNote_notePosition = to_Number p
              in Inr (Number_add afterNote_notePosition 1,
                      addNoteReorderingSync
                        (shift_positions d parentNoteId afterNote_notePosition) parentNoteId)))
      else Inl (Error (''Unknown target: '' @ target noteOpts)))"

section \<open>Revision snapshot policy\<close>

text \<open>
  Modelled from the spec: \<^verbatim>\<open>note.getLabelMap()\<close> (\<^verbatim>\<open>entities/note.js\<close> is not in the
  sources) is the mapping from name to value of the labels the note carries; of two
  labels with one name the later row stands.
\<close>

definition getLabelMap :: "db \<Rightarrow> Note \<Rightarrow> (string \<rightharpoonup> string)" where
  "getLabelMap d note =
     map_of (rev (map (\<lambda>l. (l_name l, l_value l))
       (filter (\<lambda>l. l_noteId l = n_noteId note \<and> \<not> l_isDeleted l) (d_labels d))))"

text \<open>
  \<^verbatim>\<open>SELECT noteRevisionId FROM note_revisions WHERE noteId = ? AND dateModifiedTo >= ?\<close>
  through \<^verbatim>\<open>sql.getValue\<close>: the first row's identifier, or \<^verbatim>\<open>null\<close>.
\<close>

definition recent_revisions :: "db \<Rightarrow> string \<Rightarrow> int \<Rightarrow> NoteRevision list" where
  "recent_revisions d noteId revisionCutoff =
     filter (\<lambda>r. r_noteId r = noteId \<and> r_dateModifiedTo r \<ge> revisionCutoff) (d_note_revisions d)"

definition existing_noteRevisionId :: "db \<Rightarrow> string \<Rightarrow> int \<Rightarrow> string option" where
  "existing_noteRevisionId d noteId revisionCutoff =
     (case recent_revisions d noteId revisionCutoff of
        [] \<Rightarrow> None
      | r # _ \<Rightarrow> Some (r_noteRevisionId r))"

text \<open>
  JavaScript's \<^verbatim>\<open>!x\<close> on the value of that query: \<^verbatim>\<open>null\<close> and the empty string
  are falsy, every other string is truthy.
\<close>

definition falsy :: "string option \<Rightarrow> bool" where
  "falsy v = (case v of None \<Rightarrow> True | Some s \<Rightarrow> s = [])"

text \<open>The revision that \<^verbatim>\<open>saveNoteRevision\<close> builds from the note as it was loaded.\<close>

definition new_NoteRevision :: "env \<Rightarrow> db \<Rightarrow> Note \<Rightarrow> NoteRevision" where
  "new_NoteRevision e d note =
     \<lparr>r_noteRevisionId = newNoteRevisionId e (d_ids_drawn d),
      r_noteId = n_noteId note,
      r_title = n_title note,
      r_content = n_content note,
      r_isProtected = Some False,
      r_dateModifiedFrom = n_dateModified note,
      r_dateModifiedTo = nowDate e\<rparr>"

definition saveNoteRevision :: "env \<Rightarrow> db \<Rightarrow> Note \<Rightarrow> db" where
  "saveNoteRevision e d note =
     (let labelsMap = getLabelMap d note;
          noteRevisionSnapshotTimeInterval = snapshot_interval e;
          revisionCutoff = now e - noteRevisionSnapshotTimeInterval * 1000;
          existingnoteRevisionId = existing_noteRevisionId d (n_noteId note) revisionCutoff;
          msSinceDateCreated = now e - n_dateCreated note
      in if n_type note \<noteq> ''file''
            \<and> labelsMap ''disable_versioning'' \<noteq> Some ''true''
            \<and> falsy existingnoteRevisionId
            \<and> msSinceDateCreated \<ge> noteRevisionSnapshotTimeInterval * 1000
         then updateEntity_note_revision (d\<lparr>d_ids_drawn := Suc (d_ids_drawn d)\<rparr>)
                (new_NoteRevision e d note)
         else d)"

section \<open>Image reference tracker\<close>

text \<open>
  The regular expression \<^verbatim>\<open>/src="\/api\/images\/([a-zA-Z0-9]+)\//g\<close>. \<open>match_here s\<close>
  matches it at the start of \<open>s\<close> and returns the captured identifier with the text
  after the match: the prefix, the longest run of letters and digits (it must be followed
  by a slash, so no shorter run can match), and the slash.
\<close>

definition image_prefix :: string where
  "image_prefix = ''src='' @ [CHR 0x22] @ ''/api/images/''"

definition isAlnum :: "char \<Rightarrow> bool" where
  "isAlnum c \<longleftrightarrow>
     (let k = (of_char c :: nat)
      in (48 \<le> k \<and> k \<le> 57) \<or> (65 \<le> k \<and> k \<le> 90) \<or> (97 \<le> k \<and> k \<le> 122))"

definition match_here :: "string \<Rightarrow> (string \<times> string) option" where
  "match_here s =
     (if take (length image_prefix) s = image_prefix then
        (let t = drop (length image_prefix) s;
             imageId = takeWhile isAlnum t;
             rest = dropWhile isAlnum t
         in if imageId \<noteq> [] \<and> take 1 rest = ''/'' then Some (imageId, drop 1 rest) else None)
      else None)"

text \<open>
  The loop \<^verbatim>\<open>while (match = re.exec(note.content))\<close>: the identifiers of all matches
  from left to right, each search starting where the match before it ended.
\<close>

function exec_all :: "string \<Rightarrow> string list" where
  "exec_all [] = []"
| "exec_all (c # s) =
     (case match_here (c # s) of
        Some (imageId, rest) \<Rightarrow> imageId # exec_all rest
      | None \<Rightarrow> exec_all s)"
  by pat_completeness auto
termination
proof (relation "measure length", goal_cases)
  case 1
  show ?case by simp
next
  case (2 c s)
  show ?case by simp
next
  case (3 c s m imageId rest)
  let ?t = "drop (length image_prefix) (c # s)"
  from 3 have m: "match_here (c # s) = Some (imageId, rest)"
    by simp
  then have pre: "take (length image_prefix) (c # s) = image_prefix"
    by (simp add: match_here_def split: if_splits)
  with m have rest: "rest = drop 1 (dropWhile isAlnum ?t)"
    by (simp add: match_here_def Let_def split: if_splits)
  have "length (dropWhile isAlnum ?t) \<le> length ?t"
    by (rule length_dropWhile_le)
  moreover from pre have "length image_prefix \<le> length (c # s)"
    by (metis length_take min.cobounded1)
  moreover have "length image_prefix = 17"
    by (simp add: image_prefix_def)
  ultimately have "length rest < length (c # s)"
    using rest by simp
  then show ?case by simp
qed

text \<open>\<^verbatim>\<open>re.exec\<close> converts its argument to a string: \<^verbatim>\<open>undefined\<close> is read as its name.\<close>

definition content_string :: "Note \<Rightarrow> string" where
  "content_string note = (case n_content note of None \<Rightarrow> ''undefined'' | Some s \<Rightarrow> s)"

text \<open>
  Modelled from the spec: \<^verbatim>\<open>note.getNoteImages()\<close> (\<^verbatim>\<open>entities/note.js\<close> is not in
  the sources) returns the tracked images of the note: its tracking records that are not
  marked deleted.
\<close>

definition getNoteImages :: "db \<Rightarrow> Note \<Rightarrow> NoteImage list" where
  "getNoteImages d note =
     filter (\<lambda>ni. i_noteId ni = n_noteId note \<and> \<not> i_isDeleted ni) (d_note_images d)"

text \<open>The body of the \<^verbatim>\<open>while\<close> loop of \<^verbatim>\<open>saveNoteImages\<close> for one match.\<close>

definition track_image :: "env \<Rightarrow> Note \<Rightarrow> NoteImage list \<Rightarrow> string \<Rightarrow> db \<Rightarrow> db" where
  "track_image e note existingNoteImages imageId d =
     (case find (\<lambda>ni. i_imageId ni = imageId) existingNoteImages of
        None \<Rightarrow>
          updateEntity_note_image (d\<lparr>d_ids_drawn := Suc (d_ids_drawn d)\<rparr>)
            \<lparr>i_noteImageId = newNoteImageId e (d_ids_drawn d),
             i_noteId = n_noteId note,
             i_imageId = imageId,
             i_isDeleted = False\<rparr>
      | Some existingNoteImage \<Rightarrow> d)"

text \<open>The body of the \<^verbatim>\<open>for\<close> loop over the unused records.\<close>

definition mark_unused :: "NoteImage \<Rightarrow> db \<Rightarrow> db" where
  "mark_unused unusedNoteImage d =
     updateEntity_note_image d (unusedNoteImage\<lparr>i_isDeleted := True\<rparr>)"

definition saveNoteImages :: "env \<Rightarrow> db \<Rightarrow> Note \<Rightarrow> db" where
  "saveNoteImages e d note =
     (if n_type note \<noteq> ''text'' then d
      else
        (let existingNoteImages = getNoteImages d note;
             foundImageIds = exec_all (content_string note);
             d1 = fold (track_image e note existingNoteImages) foundImageIds d;
             unusedNoteImages =
               filter (\<lambda>ni. i_imageId ni \<notin> set foundImageIds) existingNoteImages
         in fold mark_unused unusedNoteImages d1))"

section \<open>Protection propagator\<close>

text \<open>
  Modelled from the spec: \<^verbatim>\<open>note.getRevisions()\<close> returns the revisions of the note,
  and \<^verbatim>\<open>note.getChildNotes()\<close> the notes placed under it by a branch that is not
  deleted, one for each such branch (\<^verbatim>\<open>entities/note.js\<close> is not in the sources).
\<close>

definition getRevisions :: "db \<Rightarrow> Note \<Rightarrow> NoteRevision list" where
  "getRevisions d note = filter (\<lambda>r. r_noteId r = n_noteId note) (d_note_revisions d)"

definition getChildNotes :: "db \<Rightarrow> Note \<Rightarrow> Note list" where
  "getChildNotes d note =
     concat (map (\<lambda>b. filter (\<lambda>n. n_noteId n = b_noteId b) (d_notes d))
       (filter (\<lambda>b. b_parentNoteId b = n_noteId note \<and> b_isDeleted b = Num 0) (d_branches d)))"

definition protectNoteRevisions :: "db \<Rightarrow> Note \<Rightarrow> db" where
  "protectNoteRevisions d note =
     fold (\<lambda>revision d'.
             if n_isProtected note \<noteq> r_isProtected revision
             then updateEntity_note_revision d' (revision\<lparr>r_isProtected := n_isProtected note\<rparr>)
             else d')
       (getRevisions d note) d"

text \<open>
  \<^verbatim>\<open>protectNote\<close> assigns to the note object it was given; the model returns the object
  with the store. Here and in \<^verbatim>\<open>protectNoteRevisions\<close> above, \<^verbatim>\<open>!==\<close> is a
  comparison of truth values (see the data model), so the write log of the model may
  lack writes that store the truth value a row already has; the rows are those of the
  source.
\<close>

definition protectNote :: "db \<Rightarrow> Note \<Rightarrow> bool \<Rightarrow> Note \<times> db" where
  "protectNote d note protect =
     (if Some protect \<noteq> n_isProtected note
      then (let note' = note\<lparr>n_isProtected := Some protect\<rparr>;
                d' = updateEntity_note d note'
            in (note', protectNoteRevisions d' note'))
      else (note, protectNoteRevisions d note))"

text \<open>
  \<^verbatim>\<open>protectNoteRecursively\<close> has no guard against a cycle of placements, so the
  recursion is bounded by fuel: \<open>None\<close> is a call that did not return within it. A call
  spends one unit for each level of recursion.
\<close>

fun protectNoteRecursively :: "nat \<Rightarrow> db \<Rightarrow> Note \<Rightarrow> bool \<Rightarrow> db option"
  and protect_children :: "nat \<Rightarrow> Note list \<Rightarrow> bool \<Rightarrow> db \<Rightarrow> db option" where
  "protectNoteRecursively 0 d note protect = None"
| "protectNoteRecursively (Suc fuel) d note protect =
     (case protectNote d note protect of
        (note', d') \<Rightarrow> protect_children fuel (getChildNotes d' note') protect d')"
| "protect_children fuel [] protect d = Some d"
| "protect_children fuel (child # rest) protect d =
     (case protectNoteRecursively fuel d child protect of
        None \<Rightarrow> None
      | Some d' \<Rightarrow> protect_children fuel rest protect d')"

section \<open>updateNote\<close>

text \<open>The three fields of \<^verbatim>\<open>noteUpdates\<close> that are read; an absent field is \<open>None\<close>.\<close>

record note_updates =
  u_title :: "string option"
  u_content :: "string option"
  u_isProtected :: "bool option"

text \<open>Reading \<^verbatim>\<open>note.type\<close> of a note that does not exist raises a TypeError.\<close>

definition updateNote :: "env \<Rightarrow> db \<Rightarrow> string \<Rightarrow> note_updates \<Rightarrow> error + db" where
  "updateNote e d noteId noteUpdates =
     (case getNote d noteId of
        None \<Rightarrow> Inl TypeError
      | Some note \<Rightarrow>
          (let noteUpdates' =
                 (if n_type note = ''file''
                  then noteUpdates\<lparr>u_content := n_content note\<rparr> else noteUpdates);
               d1 = saveNoteRevision e d note;
               note' = note\<lparr>n_title := u_title noteUpdates',
                            n_content := u_content noteUpdates',
                            n_isProtected := u_isProtected noteUpdates'\<rparr>;
               d2 = updateEntity_note d1 note';
               d3 = saveNoteImages e d2 note';
               d4 = protectNoteRevisions d3 note'
           in Inr d4))"

section \<open>Deletion cascade\<close>

text \<open>
  Modelled from the spec: \<^verbatim>\<open>note.getBranches()\<close> returns the note's branches that are
  not deleted, \<^verbatim>\<open>note.getChildBranches()\<close> the branches under the note that are not
  deleted, and \<^verbatim>\<open>branch.getNote()\<close> the branch's note (\<^verbatim>\<open>entities/*.js\<close> are not in
  the sources).
\<close>

definition getBranches :: "db \<Rightarrow> Note \<Rightarrow> Branch list" where
  "getBranches d note =
     filter (\<lambda>b. b_noteId b = n_noteId note \<and> b_isDeleted b = Num 0) (d_branches d)"

definition getChildBranches :: "db \<Rightarrow> Note \<Rightarrow> Branch list" where
  "getChildBranches d note = siblings d (n_noteId note)"

text \<open>
  \<^verbatim>\<open>deleteNote(branch)\<close>; \<open>None\<close> for the argument is a missing branch. The test
  \<^verbatim>\<open>branch.isDeleted === 1\<close> holds for the number 1 only; the assignment
  \<^verbatim>\<open>branch.isDeleted = true\<close> leaves the boolean in the object, and \<^verbatim>\<open>save()\<close>
  stores it as 1. The recursion is bounded by fuel as above, spent only where the
  function calls itself. Calling \<^verbatim>\<open>getBranches\<close> on a note that does not exist
  raises a TypeError.
\<close>

fun deleteNote :: "nat \<Rightarrow> db \<Rightarrow> Branch option \<Rightarrow> (error + db) option"
  and deleteNote_children :: "nat \<Rightarrow> Branch list \<Rightarrow> db \<Rightarrow> (error + db) option" where
  "deleteNote fuel d None = Some (Inr d)"
| "deleteNote fuel d (Some branch) =
     (if b_isDeleted branch = Num 1 then Some (Inr d)
      else
        (let branch' = branch\<lparr>b_isDeleted := Bool True\<rparr>;
             d1 = updateEntity_branch d branch'
         in case getNote d1 (b_noteId branch') of
              None \<Rightarrow> Some (Inl TypeError)
            | Some note \<Rightarrow>
                (let notDeletedBranches = getBranches d1 note
                 in if length notDeletedBranches = 0 then
                      (let note' = note\<lparr>n_isDeleted := True\<rparr>;
                           d2 = updateEntity_note d1 note'
                       in deleteNote_children fuel (getChildBranches d2 note') d2)
                    else Some (Inr d1))))"
| "deleteNote_children 0 childBranches d =
     (if childBranches = [] then Some (Inr d) else None)"
| "deleteNote_children (Suc fuel) [] d = Some (Inr d)"
| "deleteNote_children (Suc fuel) (childBranch # rest) d =
     (case deleteNote fuel d (Some childBranch) of
        None \<Rightarrow> None
      | Some (Inl err) \<Rightarrow> Some (Inl err)
      | Some (Inr d') \<Rightarrow> deleteNote_children (Suc fuel) rest d')"

section \<open>Example states\<close>

text \<open>Concrete stores and notes on which the theorems below are exercised.\<close>

definition mk_Branch :: "string \<Rightarrow> string \<Rightarrow> string \<Rightarrow> int \<Rightarrow> flag \<Rightarrow> Branch" where
  "mk_Branch branchId noteId parentNoteId notePosition isDeleted =
     \<lparr>b_branchId = branchId, b_noteId = noteId, b_parentNoteId = parentNoteId,
      b_notePosition = notePosition, b_isExpanded = False, b_isDeleted = isDeleted\<rparr>"

definition mk_Note :: "string \<Rightarrow> string \<Rightarrow> string \<Rightarrow> Note" where
  "mk_Note noteId type content =
     \<lparr>n_noteId = noteId, n_title = Some ''title'', n_content = Some content, n_type = type,
      n_mime = ''text/html'', n_isProtected = Some False, n_isDeleted = False,
      n_dateCreated = 0, n_dateModified = 50\<rparr>"

definition empty_db :: db where
  "empty_db =
     \<lparr>d_notes = [], d_branches = [], d_note_revisions = [], d_note_images = [],
      d_labels = [], d_note_reordering_sync = [], d_writes = [], d_ids_drawn = 0\<rparr>"

text \<open>
  The clock stands at 100 s, the snapshot interval is 10 s, and the \<open>k\<close>-th identifier
  of a generator is its prefix followed by \<open>k\<close> letters.
\<close>

definition example_env :: env where
  "example_env =
     \<lparr>now = 100000, nowDate = 100001, snapshot_interval = 10,
      newNoteRevisionId = (\<lambda>k. ''rev'' @ replicate k CHR ''x''),
      newNoteImageId = (\<lambda>k. ''img'' @ replicate k CHR ''x'')\<rparr>"

text \<open>
  Three children of the root at positions 0, 1 and 2, a deleted branch of the root at
  position 7, and a child of another note.
\<close>

definition siblings_db :: db where
  "siblings_db = empty_db\<lparr>d_branches :=
     [mk_Branch ''b0'' ''n0'' ''root'' 0 (Num 0),
      mk_Branch ''b1'' ''n1'' ''root'' 1 (Num 0),
      mk_Branch ''b2'' ''n2'' ''root'' 2 (Num 0),
      mk_Branch ''b3'' ''n3'' ''root'' 7 (Num 1),
      mk_Branch ''b4'' ''n4'' ''n0'' 5 (Num 0)]\<rparr>"

text \<open>A store with one revision of note \<open>n1\<close>, taken 5 s before the clock's reading.\<close>

definition revised_db :: db where
  "revised_db = empty_db\<lparr>d_note_revisions :=
     [\<lparr>r_noteRevisionId = ''r1'', r_noteId = ''n1'', r_title = Some ''old'',
       r_content = Some ''old'', r_isProtected = Some False,
       r_dateModifiedFrom = 10, r_dateModifiedTo = 95000\<rparr>]\<rparr>"

text \<open>A store with a file note and a text note.\<close>

definition notes_db :: db where
  "notes_db = empty_db\<lparr>d_notes :=
     [mk_Note ''f1'' ''file'' ''payload'', mk_Note ''t1'' ''text'' ''<p>hi</p>'']\<rparr>"

text \<open>
  An image tag as the editor writes it, a store with two tracking records of note
  \<open>t2\<close>, a note that references the tracked image \<open>abc\<close> and an untracked image
  \<open>new1\<close> (and no longer \<open>old\<close>), and a note that references one image twice.
\<close>

definition img_tag :: "string \<Rightarrow> string" where
  "img_tag imageId = ''<img '' @ image_prefix @ imageId @ ''/pic.png'' @ [CHR 0x22] @ ''>''"

definition mk_NoteImage :: "string \<Rightarrow> string \<Rightarrow> string \<Rightarrow> bool \<Rightarrow> NoteImage" where
  "mk_NoteImage noteImageId noteId imageId isDeleted =
     \<lparr>i_noteImageId = noteImageId, i_noteId = noteId, i_imageId = imageId,
      i_isDeleted = isDeleted\<rparr>"

definition images_db :: db where
  "images_db = empty_db\<lparr>d_note_images :=
     [mk_NoteImage ''k1'' ''t2'' ''abc'' False, mk_NoteImage ''k2'' ''t2'' ''old'' False]\<rparr>"

definition gallery_note :: Note where
  "gallery_note = mk_Note ''t2'' ''text'' (img_tag ''abc'' @ ''<p>hi</p>'' @ img_tag ''new1'')"

definition twice_note :: Note where
  "twice_note = mk_Note ''t3'' ''text'' (img_tag ''abc'' @ img_tag ''abc'')"

text \<open>
  Notes \<open>A\<close>, \<open>B\<close> and \<open>C\<close>: \<open>A\<close> is placed under the root, \<open>B\<close> and \<open>C\<close> under
  \<open>A\<close>, and \<open>B\<close> is also placed under the root.
\<close>

definition shared_db :: db where
  "shared_db = empty_db
     \<lparr>d_notes := [mk_Note ''A'' ''text'' '''', mk_Note ''B'' ''text'' '''', mk_Note ''C'' ''text'' ''''],
      d_branches :=
        [mk_Branch ''bA'' ''A'' ''root'' 0 (Num 0),
         mk_Branch ''bB'' ''B'' ''A'' 0 (Num 0),
         mk_Branch ''bC'' ''C'' ''A'' 1 (Num 0),
         mk_Branch ''bB2'' ''B'' ''root'' 1 (Num 0)]\<rparr>"

text \<open>
  A root note \<open>R\<close> with child \<open>A\<close> and grandchild \<open>B\<close>, none protected, and an
  unprotected revision of \<open>R\<close> and of \<open>B\<close>.
\<close>

definition mk_NoteRevision :: "string \<Rightarrow> string \<Rightarrow> NoteRevision" where
  "mk_NoteRevision noteRevisionId noteId =
     \<lparr>r_noteRevisionId = noteRevisionId, r_noteId = noteId, r_title = Some ''old'',
      r_content = Some ''old'', r_isProtected = Some False,
      r_dateModifiedFrom = 10, r_dateModifiedTo = 20\<rparr>"

definition family_db :: db where
  "family_db = empty_db
     \<lparr>d_notes := [mk_Note ''R'' ''text'' '''', mk_Note ''A'' ''text'' '''', mk_Note ''B'' ''text'' ''''],
      d_branches :=
        [mk_Branch ''bA'' ''A'' ''R'' 0 (Num 0), mk_Branch ''bB'' ''B'' ''A'' 0 (Num 0)],
      d_note_revisions := [mk_NoteRevision ''r1'' ''R'', mk_NoteRevision ''r2'' ''B'']\<rparr>"

section \<open>The skip conditions of the snapshot policy, as the specification words them\<close>

text \<open>
  The note's type is \<^verbatim>\<open>file\<close>; or the note carries the label \<^verbatim>\<open>disable_versioning\<close>
  with value \<^verbatim>\<open>"true"\<close>; or a revision of the note has \<^verbatim>\<open>dateModifiedTo\<close> at or
  after the cutoff, the clock's reading minus the interval; or the note's age since
  \<^verbatim>\<open>dateCreated\<close> is shorter than the interval.
\<close>

definition snapshot_skipped :: "env \<Rightarrow> db \<Rightarrow> Note \<Rightarrow> bool" where
  "snapshot_skipped e d note \<longleftrightarrow>
     n_type note = ''file''
     \<or> getLabelMap d note ''disable_versioning'' = Some ''true''
     \<or> (\<exists>r \<in> set (d_note_revisions d).
           r_noteId r = n_noteId note \<and> r_dateModifiedTo r \<ge> now e - snapshot_interval e * 1000)
     \<or> now e - n_dateCreated note < snapshot_interval e * 1000"

section \<open>Invariants of the store\<close>

text \<open>
  The invariant of the deletion cascade, as the specification words it: a note is marked
  deleted if and only if it has no branch that is not deleted.
\<close>

definition deleted_iff_unplaced :: "db \<Rightarrow> bool" where
  "deleted_iff_unplaced d \<longleftrightarrow>
     (\<forall>note \<in> set (d_notes d). n_isDeleted note \<longleftrightarrow> getBranches d note = [])"

text \<open>
  The keys of the store: branch identifiers and note identifiers are primary keys, and
  the note of every branch exists.
\<close>

definition well_formed :: "db \<Rightarrow> bool" where
  "well_formed d \<longleftrightarrow>
     distinct (map b_branchId (d_branches d)) \<and>
     distinct (map n_noteId (d_notes d)) \<and>
     (\<forall>b \<in> set (d_branches d). b_noteId b \<in> n_noteId ` set (d_notes d))"

text \<open>
  Notions for the proof of the cascade: the branches that are not deleted; a branch
  object whose row is in the store, as it is or already marked deleted; a later store,
  in which every branch row is as before or marked deleted; and what a returning call
  guarantees.
\<close>

definition live :: "db \<Rightarrow> Branch set" where
  "live d = {b \<in> set (d_branches d). b_isDeleted b = Num 0}"

definition known :: "db \<Rightarrow> Branch \<Rightarrow> bool" where
  "known d b \<longleftrightarrow> b \<in> set (d_branches d) \<or> b\<lparr>b_isDeleted := Num 1\<rparr> \<in> set (d_branches d)"

definition evolves :: "db \<Rightarrow> db \<Rightarrow> bool" where
  "evolves d d' \<longleftrightarrow>
     (\<forall>x \<in> set (d_branches d).
        x \<in> set (d_branches d') \<or> x\<lparr>b_isDeleted := Num 1\<rparr> \<in> set (d_branches d'))"
definition cascade_post :: "db \<Rightarrow> db \<Rightarrow> bool" where
  "cascade_post d d' \<longleftrightarrow>
     deleted_iff_unplaced d' \<and> well_formed d' \<and> evolves d d' \<and> card (live d') \<le> card (live d)"

text \<open>
  The placement graph that \<^verbatim>\<open>protectNoteRecursively\<close> walks: an edge from a note to
  each note that \<^verbatim>\<open>getChildNotes\<close> returns for it. A note, and the revisions of a
  note, are protected when every row of them has \<^verbatim>\<open>isProtected = true\<close>.
\<close>

definition child_rel :: "db \<Rightarrow> (string \<times> string) set" where
  "child_rel d =
     set (map (\<lambda>b. (b_parentNoteId b, b_noteId b))
       (filter (\<lambda>b. b_isDeleted b = Num 0 \<and> b_noteId b \<in> n_noteId ` set (d_notes d)) (d_branches d)))"

definition note_protected :: "db \<Rightarrow> string \<Rightarrow> bool" where
  "note_protected d noteId \<longleftrightarrow>
     (\<forall>n \<in> set (d_notes d). n_noteId n = noteId \<longrightarrow> n_isProtected n = Some True)"

definition revisions_protected :: "db \<Rightarrow> string \<Rightarrow> bool" where
  "revisions_protected d noteId \<longleftrightarrow>
     (\<forall>r \<in> set (d_note_revisions d). r_noteId r = noteId \<longrightarrow> r_isProtected r = Some True)"

text \<open>
  Notions for the proof: what every step of the propagation keeps (the branches, the
  identifiers of the notes and their distinctness, and the protection already
  established), and the body of the loop of \<^verbatim>\<open>protectNoteRevisions\<close>.
\<close>

definition protect_frame :: "db \<Rightarrow> db \<Rightarrow> bool" where
  "protect_frame d d' \<longleftrightarrow>
     d_branches d' = d_branches d \<and>
     n_noteId ` set (d_notes d') = n_noteId ` set (d_notes d) \<and>
     (distinct (map n_noteId (d_notes d)) \<longrightarrow> distinct (map n_noteId (d_notes d'))) \<and>
     (\<forall>x. note_protected d x \<longrightarrow> note_protected d' x) \<and>
     (\<forall>x. revisions_protected d x \<longrightarrow> revisions_protected d' x)"
definition protect_revision :: "bool option \<Rightarrow> NoteRevision \<Rightarrow> db \<Rightarrow> db" where
  "protect_revision p revision d =
     (if p \<noteq> r_isProtected revision
      then updateEntity_note_revision d (revision\<lparr>r_isProtected := p\<rparr>) else d)"

section \<open>Position allocator: verified properties\<close>

lemma max_notePosition_None:
  "siblings d parentNoteId = [] \<Longrightarrow> max_notePosition d parentNoteId = None"
  by (simp add: max_notePosition_def)

lemma max_notePosition_Some:
  "siblings d parentNoteId \<noteq> [] \<Longrightarrow>
   max_notePosition d parentNoteId =
     Some (Max (b_notePosition ` set (siblings d parentNoteId)))"
  by (cases "siblings d parentNoteId") (simp_all add: max_notePosition_def)

lemma in_siblings:
  "b \<in> set (siblings d parentNoteId) \<longleftrightarrow>
   b \<in> set (d_branches d) \<and> b_parentNoteId b = parentNoteId \<and> b_isDeleted b = Num 0"
  by (auto simp: siblings_def)

lemma Number_add_safe: "\<bar>x\<bar> < 2 ^ 53 \<Longrightarrow> Number_add (to_Number x) 1 = x + 1"
proof -
  assume "\<bar>x\<bar> < 2 ^ 53"
  then have "\<bar>x\<bar> \<le> 2 ^ 53" "\<bar>x + 1\<bar> \<le> 2 ^ 53"
    by simp_all
  then show ?thesis
    by (simp add: to_Number_def Number_add_def)
qed

text \<open>
  C1. With the target \<^verbatim>\<open>into\<close>, and the positions of the parent's branches that are
  not deleted within the range of safe integers (below \<open>2 ^ 53\<close> in magnitude, where
  adding 1 to a Number is exact), \<^verbatim>\<open>getNewNotePosition\<close> returns 0 when the parent has
  no branch that is not deleted, and otherwise 1 + the greatest \<^verbatim>\<open>notePosition\<close> of the
  parent's branches that are not deleted; the store is left as it was, and the position
  returned is strictly greater than the position of every such branch.
\<close>

theorem getNewNotePosition_into:
  assumes "target noteOpts = ''into''"
    and "\<forall>b \<in> set (siblings d parentNoteId). \<bar>b_notePosition b\<bar> < 2 ^ 53"
  shows "\<exists>pos. getNewNotePosition d parentNoteId noteOpts = Inr (pos, d) \<and>
           pos = (if siblings d parentNoteId = [] then 0
                  else 1 + Max (b_notePosition ` set (siblings d parentNoteId))) \<and>
           (\<forall>b \<in> set (d_branches d).
              b_parentNoteId b = parentNoteId \<and> b_isDeleted b = Num 0 \<longrightarrow> b_notePosition b < pos)"
proof (cases "siblings d parentNoteId = []")
  case True
  have "\<not> (b_parentNoteId b = parentNoteId \<and> b_isDeleted b = Num 0)"
    if "b \<in> set (d_branches d)" for b
    using that True in_siblings [of b d parentNoteId] by auto
  then show ?thesis using assms(1) True
    by (auto simp: getNewNotePosition_def max_notePosition_None)
next
  case False
  let ?m = "Max (b_notePosition ` set (siblings d parentNoteId))"
  have "?m \<in> b_notePosition ` set (siblings d parentNoteId)"
    using False by (intro Max_in) simp_all
  with assms(2) have safe: "\<bar>?m\<bar> < 2 ^ 53"
    by auto
  have "b_notePosition b < 1 + ?m"
    if "b \<in> set (d_branches d)" "b_parentNoteId b = parentNoteId" "b_isDeleted b = Num 0" for b
  proof -
    from that have "b \<in> set (siblings d parentNoteId)"
      by (simp add: in_siblings)
    then have "b_notePosition b \<le> ?m" by simp
    then show ?thesis by simp
  qed
  then have bound: "\<forall>b \<in> set (d_branches d).
      b_parentNoteId b = parentNoteId \<and> b_isDeleted b = Num 0 \<longrightarrow> b_notePosition b < 1 + ?m"
    by blast
  have "getNewNotePosition d parentNoteId noteOpts = Inr (1 + ?m, d)"
    using assms(1) False Number_add_safe [OF safe]
    by (simp add: getNewNotePosition_def max_notePosition_Some)
  with bound False show ?thesis by simp
qed

text \<open>
  On the example: under the root the greatest live position is 2 (the branch at 7 is
  deleted), so 3 is allocated; a parent without children gets 0.
\<close>

theorem getNewNotePosition_into_witness:
  "target \<lparr>target = ''into'', target_branchId = ''''\<rparr> = ''into'' \<and>
   getNewNotePosition siblings_db ''root'' \<lparr>target = ''into'', target_branchId = ''''\<rparr> =
     Inr (3, siblings_db) \<and>
   getNewNotePosition siblings_db ''n9'' \<lparr>target = ''into'', target_branchId = ''''\<rparr> =
     Inr (0, siblings_db)"
proof -
  have safe: "\<forall>b \<in> set (siblings siblings_db p). \<bar>b_notePosition b\<bar> < 2 ^ 53" for p
    by (simp add: siblings_db_def empty_db_def siblings_def mk_Branch_def)
  show ?thesis
    using
      getNewNotePosition_into [of "\<lparr>target = ''into'', target_branchId = ''''\<rparr>" siblings_db "''root''"]
      getNewNotePosition_into [of "\<lparr>target = ''into'', target_branchId = ''''\<rparr>" siblings_db "''n9''"]
      safe [of "''root''"] safe [of "''n9''"]
    by (simp add: siblings_db_def empty_db_def siblings_def mk_Branch_def)
qed

text \<open>
  Beyond the safe integers the sum is rounded: with a live sibling at \<open>2 ^ 53\<close> the
  position allocated is \<open>2 ^ 53\<close> again.
\<close>

lemma Number_add_rounded: "Number_add (to_Number (2 ^ 53)) 1 = 2 ^ 53"
  by code_simp

lemma getNewNotePosition_into_rounded:
  "getNewNotePosition
     (empty_db\<lparr>d_branches := [mk_Branch ''b0'' ''n0'' ''root'' (2 ^ 53) (Num 0)]\<rparr>)
     ''root'' \<lparr>target = ''into'', target_branchId = ''''\<rparr> =
   Inr (2 ^ 53, empty_db\<lparr>d_branches := [mk_Branch ''b0'' ''n0'' ''root'' (2 ^ 53) (Num 0)]\<rparr>)"
  using Number_add_rounded
  by (simp add: getNewNotePosition_def max_notePosition_def siblings_def mk_Branch_def
      empty_db_def)

lemma shift_positions_rows:
  "list_all2 (\<lambda>b b'.
       if b_parentNoteId b = parentNoteId \<and> b_isDeleted b = Num 0 \<and> b_notePosition b > p
       then b' = b\<lparr>b_notePosition := b_notePosition b + 1\<rparr>
       else b' = b)
     (d_branches d) (d_branches (shift_positions d parentNoteId p))"
  by (auto simp: shift_positions_def shifted_def list_all2_map2 list_all2_same)

text \<open>
  C2. With the target \<^verbatim>\<open>after\<close> and a reference branch at a position \<open>p\<close> within the
  range of safe integers (below \<open>2 ^ 53\<close> in magnitude, where adding 1 to a Number is
  exact), \<^verbatim>\<open>getNewNotePosition\<close> returns \<open>p + 1\<close>; row by row, a branch of the parent
  that is not deleted and whose position is greater than \<open>p\<close> has its position
  increased by exactly 1 and every other branch is unchanged; and one reordering entry
  for the parent is appended to the sync log.
\<close>

theorem getNewNotePosition_after:
  assumes "target noteOpts = ''after''"
    and "notePosition_of d (target_branchId noteOpts) = Some p"
    and "\<bar>p\<bar> < 2 ^ 53"
  shows "\<exists>d'. getNewNotePosition d parentNoteId noteOpts = Inr (p + 1, d') \<and>
           list_all2 (\<lambda>b b'.
               if b_parentNoteId b = parentNoteId \<and> b_isDeleted b = Num 0 \<and> b_notePosition b > p
               then b' = b\<lparr>b_notePosition := b_notePosition b + 1\<rparr>
               else b' = b)
             (d_branches d) (d_branches d') \<and>
           d_note_reordering_sync d' = d_note_reordering_sync d @ [parentNoteId]"
proof -
  let ?d' = "addNoteReorderingSync (shift_positions d parentNoteId p) parentNoteId"
  from assms(3) have read: "to_Number p = p"
    by (simp add: to_Number_def)
  have "getNewNotePosition d parentNoteId noteOpts = Inr (p + 1, ?d')"
    using assms(1,2) Number_add_safe [OF assms(3)]
    by (simp add: getNewNotePosition_def Let_def read)
  moreover have "d_branches ?d' = d_branches (shift_positions d parentNoteId p)"
    by (simp add: addNoteReorderingSync_def)
  moreover have "d_note_reordering_sync ?d' = d_note_reordering_sync d @ [parentNoteId]"
    by (simp add: addNoteReorderingSync_def shift_positions_def)
  ultimately show ?thesis
    using shift_positions_rows [of parentNoteId p d] by (intro exI [of _ ?d']) simp
qed

text \<open>
  On the example (siblings at 0, 1, 2; insert after the branch at 1): the new position is
  2, the sibling at 2 moves to 3, the deleted branch at 7 and the other parent's branch
  at 5 stay.
\<close>

theorem getNewNotePosition_after_witness:
  "target \<lparr>target = ''after'', target_branchId = ''b1''\<rparr> = ''after'' \<and>
   notePosition_of siblings_db ''b1'' = Some 1 \<and>
   \<bar>1 :: int\<bar> < 2 ^ 53 \<and>
   (\<exists>d'. getNewNotePosition siblings_db ''root'' \<lparr>target = ''after'', target_branchId = ''b1''\<rparr> =
      Inr (2, d') \<and>
      map b_notePosition (d_branches d') = [0, 1, 3, 7, 5] \<and>
      d_note_reordering_sync d' = [''root''])"
proof -
  have p: "notePosition_of siblings_db ''b1'' = Some 1"
    by (simp add: notePosition_of_def siblings_db_def empty_db_def mk_Branch_def)
  have s: "\<bar>1 :: int\<bar> < 2 ^ 53"
    by simp
  show ?thesis
    using getNewNotePosition_after
      [of "\<lparr>target = ''after'', target_branchId = ''b1''\<rparr>" siblings_db 1 "''root''"] p s
    by (auto simp: list_all2_Cons1 siblings_db_def empty_db_def mk_Branch_def)
qed

section \<open>Revision snapshot policy: verified properties\<close>

lemma existing_noteRevisionId_falsy:
  assumes "\<forall>r \<in> set (d_note_revisions d). r_noteRevisionId r \<noteq> []"
  shows "falsy (existing_noteRevisionId d noteId revisionCutoff) \<longleftrightarrow>
         \<not> (\<exists>r \<in> set (d_note_revisions d).
               r_noteId r = noteId \<and> r_dateModifiedTo r \<ge> revisionCutoff)"
proof (cases "recent_revisions d noteId revisionCutoff")
  case Nil
  then have "\<not> (\<exists>r \<in> set (d_note_revisions d).
                   r_noteId r = noteId \<and> r_dateModifiedTo r \<ge> revisionCutoff)"
    by (auto simp: recent_revisions_def filter_empty_conv)
  with Nil show ?thesis
    by (simp add: existing_noteRevisionId_def falsy_def)
next
  case (Cons r rs)
  then have "r \<in> set (recent_revisions d noteId revisionCutoff)" by simp
  then have r: "r \<in> set (d_note_revisions d)" "r_noteId r = noteId"
    "r_dateModifiedTo r \<ge> revisionCutoff"
    by (simp_all add: recent_revisions_def)
  with assms have "r_noteRevisionId r \<noteq> []" by blast
  with Cons r show ?thesis
    by (auto simp: existing_noteRevisionId_def falsy_def)
qed

text \<open>
  C3. In a store whose revisions have non-empty identifiers (the identifier is what the
  source tests for a recent revision, and an empty string would read as none):
  when a skip condition holds, \<^verbatim>\<open>saveNoteRevision\<close> leaves the store as it was, write
  log included; otherwise it issues exactly one write, of a revision that is then in
  the revisions table, whose title and content are the note's as loaded, whose
  \<^verbatim>\<open>dateModifiedFrom\<close> is the note's \<^verbatim>\<open>dateModified\<close> and whose \<^verbatim>\<open>dateModifiedTo\<close>
  is \<^verbatim>\<open>utils.nowDate()\<close>.
\<close>

theorem saveNoteRevision_policy:
  assumes "\<forall>r \<in> set (d_note_revisions d). r_noteRevisionId r \<noteq> []"
  shows "(snapshot_skipped e d note \<longrightarrow> saveNoteRevision e d note = d) \<and>
         (\<not> snapshot_skipped e d note \<longrightarrow>
            (\<exists>r. d_writes (saveNoteRevision e d note) = d_writes d @ [W_note_revision r] \<and>
                 d_note_revisions (saveNoteRevision e d note) =
                   filter (\<lambda>r'. r_noteRevisionId r' \<noteq> r_noteRevisionId r) (d_note_revisions d)
                     @ [r] \<and>
                 r_noteId r = n_noteId note \<and>
                 r_title r = n_title note \<and>
                 r_content r = n_content note \<and>
                 r_dateModifiedFrom r = n_dateModified note \<and>
                 r_dateModifiedTo r = nowDate e))"
proof -
  note f = existing_noteRevisionId_falsy
    [OF assms, of "n_noteId note" "now e - snapshot_interval e * 1000"]
  show ?thesis
  proof (cases "snapshot_skipped e d note")
    case True
    then show ?thesis using f
      by (auto simp: snapshot_skipped_def saveNoteRevision_def Let_def)
  next
    case False
    then have "saveNoteRevision e d note =
      updateEntity_note_revision (d\<lparr>d_ids_drawn := Suc (d_ids_drawn d)\<rparr>)
        (new_NoteRevision e d note)"
      using f by (auto simp: snapshot_skipped_def saveNoteRevision_def Let_def)
    then show ?thesis using False
      by (simp add: updateEntity_note_revision_def replace_row_def new_NoteRevision_def)
  qed
qed

text \<open>
  On the example: note \<open>n1\<close> has a revision 5 s old, inside the interval of 10 s, and
  nothing is written; note \<open>n2\<close> has none and is 100 s old, and one revision is
  written from it.
\<close>

theorem saveNoteRevision_policy_witness:
  "saveNoteRevision example_env revised_db (mk_Note ''n1'' ''text'' ''new'') = revised_db \<and>
   (\<exists>r. d_writes (saveNoteRevision example_env revised_db (mk_Note ''n2'' ''text'' ''new'')) =
          [W_note_revision r] \<and>
        r_noteId r = ''n2'' \<and> r_title r = Some ''title'' \<and> r_content r = Some ''new'' \<and>
        r_dateModifiedFrom r = 50 \<and> r_dateModifiedTo r = 100001)"
proof -
  have ids: "\<forall>r \<in> set (d_note_revisions revised_db). r_noteRevisionId r \<noteq> []"
    by (simp add: revised_db_def empty_db_def)
  have s1: "snapshot_skipped example_env revised_db (mk_Note ''n1'' ''text'' ''new'')"
    by (simp add: snapshot_skipped_def revised_db_def empty_db_def example_env_def mk_Note_def)
  have s2: "\<not> snapshot_skipped example_env revised_db (mk_Note ''n2'' ''text'' ''new'')"
    by (simp add: snapshot_skipped_def revised_db_def empty_db_def example_env_def mk_Note_def
        getLabelMap_def)
  have w: "d_writes revised_db = []"
    by (simp add: revised_db_def empty_db_def)
  from saveNoteRevision_policy [OF ids, of example_env "mk_Note ''n1'' ''text'' ''new''"] s1
  have a: "saveNoteRevision example_env revised_db (mk_Note ''n1'' ''text'' ''new'') = revised_db"
    by blast
  from saveNoteRevision_policy [OF ids, of example_env "mk_Note ''n2'' ''text'' ''new''"] s2 w
  have "\<exists>r. d_writes (saveNoteRevision example_env revised_db (mk_Note ''n2'' ''text'' ''new'')) =
          [W_note_revision r] \<and>
        r_noteId r = ''n2'' \<and> r_title r = Some ''title'' \<and> r_content r = Some ''new'' \<and>
        r_dateModifiedFrom r = 50 \<and> r_dateModifiedTo r = 100001"
    by (auto simp: mk_Note_def example_env_def)
  with a show ?thesis by blast
qed

section \<open>Image reference tracker: verified properties\<close>

lemma find_SomeD: "find P xs = Some x \<Longrightarrow> x \<in> set xs \<and> P x"
  by (auto simp: find_Some_iff)

lemma replace_row_fresh:
  "key e \<notin> key ` set rows \<Longrightarrow> replace_row key rows e = rows @ [e]"
  by (induction rows) (auto simp: replace_row_def)

lemma fold_track_image_existing:
  "\<forall>imageId \<in> set ids. find (\<lambda>ni. i_imageId ni = imageId) existing \<noteq> None \<Longrightarrow>
   fold (track_image e note existing) ids d = d"
  by (induction ids arbitrary: d) (auto simp: track_image_def)

lemma fold_track_image_rows:
  assumes "inj (newNoteImageId e)"
    and "\<forall>k \<ge> d_ids_drawn d. newNoteImageId e k \<notin> i_noteImageId ` set (d_note_images d)"
  shows "\<exists>news. d_note_images (fold (track_image e note existing) ids d) = d_note_images d @ news \<and>
           (\<forall>r \<in> set news. i_noteId r = n_noteId note \<and> \<not> i_isDeleted r \<and>
              i_imageId r \<in> set ids \<and> i_noteImageId r \<notin> i_noteImageId ` set (d_note_images d)) \<and>
           (\<forall>imageId \<in> set ids. find (\<lambda>ni. i_imageId ni = imageId) existing = None \<longrightarrow>
              imageId \<in> i_imageId ` set news)"
  using assms(2)
proof (induction ids arbitrary: d)
  case Nil
  then show ?case by simp
next
  case (Cons imageId ids)
  show ?case
  proof (cases "find (\<lambda>ni. i_imageId ni = imageId) existing")
    case (Some ni)
    then have step: "track_image e note existing imageId d = d"
      by (simp add: track_image_def)
    from Cons.IH [OF Cons.prems] obtain news where
      n: "d_note_images (fold (track_image e note existing) ids d) = d_note_images d @ news"
        "\<forall>r \<in> set news. i_noteId r = n_noteId note \<and> \<not> i_isDeleted r \<and>
              i_imageId r \<in> set ids \<and> i_noteImageId r \<notin> i_noteImageId ` set (d_note_images d)"
        "\<forall>imageId \<in> set ids. find (\<lambda>ni. i_imageId ni = imageId) existing = None \<longrightarrow>
              imageId \<in> i_imageId ` set news"
      by blast
    show ?thesis
      apply (rule exI [of _ news])
      using n Some step by auto
  next
    case None
    define new where "new =
      \<lparr>i_noteImageId = newNoteImageId e (d_ids_drawn d), i_noteId = n_noteId note,
       i_imageId = imageId, i_isDeleted = False\<rparr>"
    define d' where "d' = track_image e note existing imageId d"
    have fresh: "i_noteImageId new \<notin> i_noteImageId ` set (d_note_images d)"
      using Cons.prems by (simp add: new_def)
    have rows: "d_note_images d' = d_note_images d @ [new]"
      using None fresh
      by (simp add: d'_def track_image_def updateEntity_note_image_def new_def [symmetric]
          replace_row_fresh)
    have drawn: "d_ids_drawn d' = Suc (d_ids_drawn d)"
      using None by (simp add: d'_def track_image_def updateEntity_note_image_def)
    have "\<forall>k \<ge> d_ids_drawn d'. newNoteImageId e k \<notin> i_noteImageId ` set (d_note_images d')"
    proof (intro allI impI)
      fix k assume k: "d_ids_drawn d' \<le> k"
      then have "k \<noteq> d_ids_drawn d" using drawn by simp
      then have "newNoteImageId e k \<noteq> newNoteImageId e (d_ids_drawn d)"
        using assms(1) by (auto dest: injD)
      moreover have "newNoteImageId e k \<notin> i_noteImageId ` set (d_note_images d)"
        using Cons.prems k drawn by simp
      ultimately show "newNoteImageId e k \<notin> i_noteImageId ` set (d_note_images d')"
        by (simp add: rows new_def)
    qed
    from Cons.IH [OF this] obtain news where
      n: "d_note_images (fold (track_image e note existing) ids d') = d_note_images d' @ news"
        "\<forall>r \<in> set news. i_noteId r = n_noteId note \<and> \<not> i_isDeleted r \<and>
              i_imageId r \<in> set ids \<and> i_noteImageId r \<notin> i_noteImageId ` set (d_note_images d')"
        "\<forall>imageId \<in> set ids. find (\<lambda>ni. i_imageId ni = imageId) existing = None \<longrightarrow>
              imageId \<in> i_imageId ` set news"
      by blast
    have new: "i_noteId new = n_noteId note" "\<not> i_isDeleted new" "i_imageId new = imageId"
      by (simp_all add: new_def)
    show ?thesis
    proof (intro exI [of _ "new # news"] conjI)
      show "d_note_images (fold (track_image e note existing) (imageId # ids) d) =
            d_note_images d @ new # news"
        using n(1) rows by (simp add: d'_def)
      show "\<forall>r \<in> set (new # news). i_noteId r = n_noteId note \<and> \<not> i_isDeleted r \<and>
              i_imageId r \<in> set (imageId # ids) \<and>
              i_noteImageId r \<notin> i_noteImageId ` set (d_note_images d)"
        using n(2) new fresh rows by auto
      show "\<forall>imageId' \<in> set (imageId # ids).
              find (\<lambda>ni. i_imageId ni = imageId') existing = None \<longrightarrow>
              imageId' \<in> i_imageId ` set (new # news)"
        using n(3) new by auto
    qed
  qed
qed

lemma fold_mark_unused_keeps:
  "r \<in> set (d_note_images d) \<Longrightarrow> i_noteImageId r \<notin> i_noteImageId ` set unused \<Longrightarrow>
   r \<in> set (d_note_images (fold mark_unused unused d))"
  by (induction unused arbitrary: d)
    (auto simp: mark_unused_def updateEntity_note_image_def replace_row_def)

lemma fold_mark_unused_rows:
  "r \<in> set (d_note_images (fold mark_unused unused d)) \<Longrightarrow>
   (r \<in> set (d_note_images d) \<and> i_noteImageId r \<notin> i_noteImageId ` set unused) \<or> i_isDeleted r"
proof (induction unused arbitrary: d)
  case Nil
  then show ?case by simp
next
  case (Cons u unused)
  from Cons.IH [of "mark_unused u d"] Cons.prems
  have "(r \<in> set (d_note_images (mark_unused u d)) \<and>
         i_noteImageId r \<notin> i_noteImageId ` set unused) \<or> i_isDeleted r"
    by simp
  then show ?case
    by (auto simp: mark_unused_def updateEntity_note_image_def replace_row_def)
qed
lemma exec_all_gallery: "exec_all (content_string gallery_note) = [''abc'', ''new1'']"
  by code_simp

lemma exec_all_twice: "exec_all (content_string twice_note) = [''abc'', ''abc'']"
  by code_simp

text \<open>
  C7. \<^verbatim>\<open>saveNoteImages\<close> reads the existing tracking records once, before the loop
  over the matches, and looks every match up in that list. A note without tracking
  records whose content references image \<open>abc\<close> twice therefore gets two tracking
  records for \<open>abc\<close>, written by two calls of \<^verbatim>\<open>updateEntity\<close>: one for each match,
  not one for each distinct identifier.
\<close>

theorem saveNoteImages_duplicate_reference:
  "exec_all (content_string twice_note) = [''abc'', ''abc''] \<and>
   getNoteImages empty_db twice_note = [] \<and>
   d_note_images (saveNoteImages example_env empty_db twice_note) =
     [mk_NoteImage ''img'' ''t3'' ''abc'' False, mk_NoteImage ''imgx'' ''t3'' ''abc'' False] \<and>
   d_writes (saveNoteImages example_env empty_db twice_note) =
     [W_note_image (mk_NoteImage ''img'' ''t3'' ''abc'' False),
      W_note_image (mk_NoteImage ''imgx'' ''t3'' ''abc'' False)]"
proof -
  have t: "n_type twice_note = ''text''" "n_noteId twice_note = ''t3''"
    by (simp_all add: twice_note_def mk_Note_def)
  have g: "getNoteImages empty_db twice_note = []"
    by (simp add: getNoteImages_def empty_db_def)
  have s: "saveNoteImages example_env empty_db twice_note =
      fold (track_image example_env twice_note []) [''abc'', ''abc''] empty_db"
    using t by (simp add: saveNoteImages_def Let_def g exec_all_twice)
  have r: "d_note_images (fold (track_image example_env twice_note []) [''abc'', ''abc''] empty_db) =
       [mk_NoteImage ''img'' ''t3'' ''abc'' False, mk_NoteImage ''imgx'' ''t3'' ''abc'' False]"
    by (simp add: track_image_def t updateEntity_note_image_def replace_row_def
        empty_db_def example_env_def mk_NoteImage_def)
  have w: "d_writes (fold (track_image example_env twice_note []) [''abc'', ''abc''] empty_db) =
     [W_note_image (mk_NoteImage ''img'' ''t3'' ''abc'' False),
      W_note_image (mk_NoteImage ''imgx'' ''t3'' ''abc'' False)]"
    by (simp add: track_image_def t updateEntity_note_image_def replace_row_def
        empty_db_def example_env_def mk_NoteImage_def)
  show ?thesis
    by (simp only: exec_all_twice g s r w simp_thms)
qed

text \<open>
  C8. Running \<^verbatim>\<open>saveNoteImages\<close> again on the same note returns the store of the
  first run, write log included: the second run writes nothing. The identifier generator
  is assumed to return distinct identifiers that are not yet keys of the table, and the
  keys of the table to be distinct.
\<close>

theorem saveNoteImages_idempotent:
  assumes inj: "inj (newNoteImageId e)"
    and fresh: "\<forall>k \<ge> d_ids_drawn d. newNoteImageId e k \<notin> i_noteImageId ` set (d_note_images d)"
    and keys: "distinct (map i_noteImageId (d_note_images d))"
  shows "saveNoteImages e (saveNoteImages e d note) note = saveNoteImages e d note"
proof (cases "n_type note = ''text''")
  case False
  then show ?thesis by (simp add: saveNoteImages_def)
next
  case True
  define existing where "existing = getNoteImages d note"
  define found where "found = exec_all (content_string note)"
  define d1 where "d1 = fold (track_image e note existing) found d"
  define unused where "unused = filter (\<lambda>ni. i_imageId ni \<notin> set found) existing"
  define d2 where "d2 = fold mark_unused unused d1"
  define existing2 where "existing2 = getNoteImages d2 note"
  have first: "saveNoteImages e d note = d2"
    using True
    by (simp add: saveNoteImages_def Let_def existing_def found_def d1_def unused_def d2_def)
  from fold_track_image_rows [OF inj fresh, of "note" existing found] obtain news where
    rows1: "d_note_images d1 = d_note_images d @ news"
    and news: "\<forall>r \<in> set news. i_noteId r = n_noteId note \<and> \<not> i_isDeleted r \<and>
              i_imageId r \<in> set found \<and> i_noteImageId r \<notin> i_noteImageId ` set (d_note_images d)"
    and created: "\<forall>imageId \<in> set found. find (\<lambda>ni. i_imageId ni = imageId) existing = None \<longrightarrow>
              imageId \<in> i_imageId ` set news"
    unfolding d1_def by blast
  have existing_rows: "set existing \<subseteq> set (d_note_images d)"
    by (auto simp: existing_def getNoteImages_def)
  have unused_rows: "set unused \<subseteq> set existing"
    by (auto simp: unused_def)
  have inj_keys: "inj_on i_noteImageId (set (d_note_images d))"
    using keys by (simp add: distinct_map)
  have tracked: "\<exists>r \<in> set existing2. i_imageId r = imageId" if "imageId \<in> set found" for imageId
  proof (cases "find (\<lambda>ni. i_imageId ni = imageId) existing")
    case (Some r)
    then have r: "r \<in> set existing" "i_imageId r = imageId"
      by (auto dest: find_SomeD)
    then have "r \<notin> set unused"
      using that by (simp add: unused_def)
    then have "i_noteImageId r \<notin> i_noteImageId ` set unused"
      using r(1) existing_rows unused_rows inj_keys by (auto dest: inj_onD)
    moreover have "r \<in> set (d_note_images d1)"
      using r(1) existing_rows rows1 by auto
    ultimately have "r \<in> set (d_note_images d2)"
      unfolding d2_def by (rule fold_mark_unused_keeps [rotated])
    moreover have "i_noteId r = n_noteId note" "\<not> i_isDeleted r"
      using r(1) by (simp_all add: existing_def getNoteImages_def)
    ultimately have "r \<in> set existing2"
      by (simp add: existing2_def getNoteImages_def)
    with r(2) show ?thesis by blast
  next
    case None
    with created that obtain r where r: "r \<in> set news" "i_imageId r = imageId"
      by auto
    with news have p: "i_noteId r = n_noteId note" "\<not> i_isDeleted r"
      "i_noteImageId r \<notin> i_noteImageId ` set (d_note_images d)"
      by auto
    from p(3) have "i_noteImageId r \<notin> i_noteImageId ` set unused"
      using existing_rows unused_rows by auto
    moreover have "r \<in> set (d_note_images d1)"
      using r(1) rows1 by simp
    ultimately have "r \<in> set (d_note_images d2)"
      unfolding d2_def by (rule fold_mark_unused_keeps [rotated])
    with p(1,2) have "r \<in> set existing2"
      by (simp add: existing2_def getNoteImages_def)
    with r(2) show ?thesis by blast
  qed
  have still_found: "i_imageId r \<in> set found" if "r \<in> set existing2" for r
  proof -
    from that have r: "r \<in> set (d_note_images d2)" "i_noteId r = n_noteId note" "\<not> i_isDeleted r"
      by (simp_all add: existing2_def getNoteImages_def)
    from fold_mark_unused_rows [OF r(1) [unfolded d2_def]] r(3)
    have r1: "r \<in> set (d_note_images d1)" "i_noteImageId r \<notin> i_noteImageId ` set unused"
      by auto
    from r1(1) rows1 consider "r \<in> set news" | "r \<in> set (d_note_images d)" by auto
    then show ?thesis
    proof cases
      case 1
      with news show ?thesis by blast
    next
      case 2
      with r(2,3) have "r \<in> set existing"
        by (simp add: existing_def getNoteImages_def)
      moreover from r1(2) have "r \<notin> set unused" by blast
      ultimately show ?thesis by (simp add: unused_def)
    qed
  qed
  have "fold (track_image e note existing2) found d2 = d2"
  proof (rule fold_track_image_existing, intro ballI)
    fix imageId assume "imageId \<in> set found"
    from tracked [OF this] show "find (\<lambda>ni. i_imageId ni = imageId) existing2 \<noteq> None"
      by (auto simp: find_None_iff)
  qed
  moreover have "filter (\<lambda>ni. i_imageId ni \<notin> set found) existing2 = []"
    using still_found by (auto simp: filter_empty_conv)
  ultimately have "saveNoteImages e d2 note = d2"
    using True by (simp add: saveNoteImages_def Let_def existing2_def found_def)
  with first show ?thesis by simp
qed

text \<open>
  On the example: the first run writes a new record for \<open>new1\<close> and marks the record of
  \<open>old\<close> deleted; the second run changes nothing.
\<close>

theorem saveNoteImages_idempotent_witness:
  "saveNoteImages example_env (saveNoteImages example_env images_db gallery_note) gallery_note =
     saveNoteImages example_env images_db gallery_note \<and>
   d_writes (saveNoteImages example_env images_db gallery_note) =
     [W_note_image (mk_NoteImage ''img'' ''t2'' ''new1'' False),
      W_note_image (mk_NoteImage ''k2'' ''t2'' ''old'' True)]"
proof -
  have i: "inj (newNoteImageId example_env)"
    by (auto simp: example_env_def inj_def)
  have f: "\<forall>k \<ge> d_ids_drawn images_db.
      newNoteImageId example_env k \<notin> i_noteImageId ` set (d_note_images images_db)"
    by (simp add: images_db_def empty_db_def example_env_def mk_NoteImage_def)
  have k: "distinct (map i_noteImageId (d_note_images images_db))"
    by (simp add: images_db_def empty_db_def mk_NoteImage_def)
  have t: "n_type gallery_note = ''text''" "n_noteId gallery_note = ''t2''"
    by (simp_all add: gallery_note_def mk_Note_def)
  have w: "d_writes (saveNoteImages example_env images_db gallery_note) =
     [W_note_image (mk_NoteImage ''img'' ''t2'' ''new1'' False),
      W_note_image (mk_NoteImage ''k2'' ''t2'' ''old'' True)]"
    using t
    by (simp add: saveNoteImages_def Let_def exec_all_gallery getNoteImages_def images_db_def
        empty_db_def mk_NoteImage_def track_image_def mark_unused_def updateEntity_note_image_def
        replace_row_def example_env_def)
  from saveNoteImages_idempotent [OF i f k, of gallery_note] w show ?thesis
    by simp
qed

section \<open>updateNote: verified properties\<close>

lemma find_replace_row:
  "find (\<lambda>r. key r = key e) (replace_row key rows e) = Some e"
  by (induction rows) (simp_all add: replace_row_def)

lemma getNote_updateEntity_note:
  "getNote (updateEntity_note d e) (n_noteId e) = Some e"
  by (simp add: getNote_def updateEntity_note_def find_replace_row)

lemma getNote_noteId: "getNote d noteId = Some note \<Longrightarrow> n_noteId note = noteId"
  by (auto simp: getNote_def find_Some_iff)

lemma d_notes_saveNoteRevision: "d_notes (saveNoteRevision e d note) = d_notes d"
  by (simp add: saveNoteRevision_def Let_def updateEntity_note_revision_def)

lemma d_notes_fold_track_image:
  "d_notes (fold (track_image e note existing) ids d) = d_notes d"
  by (induction ids arbitrary: d)
    (simp_all add: track_image_def updateEntity_note_image_def split: option.splits)

lemma d_notes_fold_mark_unused: "d_notes (fold mark_unused unused d) = d_notes d"
  by (induction unused arbitrary: d) (simp_all add: mark_unused_def updateEntity_note_image_def)

lemma d_notes_saveNoteImages: "d_notes (saveNoteImages e d note) = d_notes d"
  by (simp add: saveNoteImages_def Let_def d_notes_fold_track_image d_notes_fold_mark_unused)

lemma d_notes_fold_protect:
  "d_notes (fold (\<lambda>revision d'.
             if p \<noteq> r_isProtected revision
             then updateEntity_note_revision d' (revision\<lparr>r_isProtected := p\<rparr>)
             else d') revisions d) = d_notes d"
  by (induction revisions arbitrary: d) (simp_all add: updateEntity_note_revision_def)

lemma d_notes_protectNoteRevisions: "d_notes (protectNoteRevisions d note) = d_notes d"
  by (simp add: protectNoteRevisions_def d_notes_fold_protect)

lemma getNote_cong: "d_notes d' = d_notes d \<Longrightarrow> getNote d' noteId = getNote d noteId"
  by (simp add: getNote_def)

lemma updateNote_persisted:
  assumes "getNote d noteId = Some note"
  shows "\<exists>d'. updateNote e d noteId noteUpdates = Inr d' \<and>
           getNote d' noteId =
             Some (note\<lparr>n_title := u_title noteUpdates,
                        n_content := (if n_type note = ''file'' then n_content note
                                      else u_content noteUpdates),
                        n_isProtected := u_isProtected noteUpdates\<rparr>)"
proof -
  define note' where "note' =
    note\<lparr>n_title := u_title noteUpdates,
         n_content := (if n_type note = ''file'' then n_content note else u_content noteUpdates),
         n_isProtected := u_isProtected noteUpdates\<rparr>"
  define d2 where "d2 = updateEntity_note (saveNoteRevision e d note) note'"
  define d4 where "d4 = protectNoteRevisions (saveNoteImages e d2 note') note'"
  have run: "updateNote e d noteId noteUpdates = Inr d4"
    using assms
    by (cases "n_type note = ''file''")
      (simp_all add: updateNote_def Let_def note'_def d2_def d4_def)
  have id: "n_noteId note' = noteId"
    using assms by (simp add: getNote_noteId note'_def)
  have "d_notes d4 = d_notes d2"
    by (simp only: d4_def d_notes_protectNoteRevisions d_notes_saveNoteImages)
  then have "getNote d4 noteId = getNote d2 noteId"
    by (rule getNote_cong)
  also have "\<dots> = Some note'"
    using getNote_updateEntity_note [of "saveNoteRevision e d note" note'] id
    by (simp add: d2_def)
  finally have "getNote d4 noteId = Some note'" .
  with run show ?thesis
    unfolding note'_def by blast
qed

text \<open>
  C4. For a note of type \<^verbatim>\<open>file\<close> and any update object, \<^verbatim>\<open>updateNote\<close> returns, and
  the note it leaves in the store has the content the note had before, whatever
  \<^verbatim>\<open>updates.content\<close> is.
\<close>

theorem updateNote_file_content:
  assumes "getNote d noteId = Some note"
    and "n_type note = ''file''"
  shows "\<exists>d' note'. updateNote e d noteId noteUpdates = Inr d' \<and>
           getNote d' noteId = Some note' \<and> n_content note' = n_content note"
  using updateNote_persisted [OF assms(1), of e noteUpdates] assms(2) by auto

text \<open>On the example: the file note keeps its payload when the update carries other content.\<close>

theorem updateNote_file_content_witness:
  "getNote notes_db ''f1'' = Some (mk_Note ''f1'' ''file'' ''payload'') \<and>
   n_type (mk_Note ''f1'' ''file'' ''payload'') = ''file'' \<and>
   (\<exists>d' note'.
      updateNote example_env notes_db ''f1''
        \<lparr>u_title = Some ''renamed'', u_content = Some ''ignored'', u_isProtected = Some False\<rparr> = Inr d' \<and>
      getNote d' ''f1'' = Some note' \<and> n_content note' = Some ''payload'')"
proof -
  have g: "getNote notes_db ''f1'' = Some (mk_Note ''f1'' ''file'' ''payload'')"
    by (simp add: getNote_def notes_db_def empty_db_def mk_Note_def)
  have t: "n_type (mk_Note ''f1'' ''file'' ''payload'') = ''file''"
    by (simp add: mk_Note_def)
  have c: "n_content (mk_Note ''f1'' ''file'' ''payload'') = Some ''payload''"
    by (simp add: mk_Note_def)
  from updateNote_file_content [OF g t, of example_env
      "\<lparr>u_title = Some ''renamed'', u_content = Some ''ignored'', u_isProtected = Some False\<rparr>"] g t c
  show ?thesis by simp
qed

text \<open>
  C10. For a note whose type is not \<^verbatim>\<open>file\<close> and any update object, \<^verbatim>\<open>updateNote\<close>
  returns, and the note it leaves in the store is the note as loaded with its title,
  content and \<^verbatim>\<open>isProtected\<close> replaced by those of the update object; a field the
  object lacks (\<open>None\<close>) replaces the note's value all the same.
\<close>

theorem updateNote_overwrites:
  assumes "getNote d noteId = Some note"
    and "n_type note \<noteq> ''file''"
  shows "\<exists>d'. updateNote e d noteId noteUpdates = Inr d' \<and>
           getNote d' noteId =
             Some (note\<lparr>n_title := u_title noteUpdates,
                        n_content := u_content noteUpdates,
                        n_isProtected := u_isProtected noteUpdates\<rparr>)"
  using updateNote_persisted [OF assms(1), of e noteUpdates] assms(2) by simp

text \<open>
  On the example: an update that carries only a title leaves the text note with that
  title and with neither content nor protection flag.
\<close>

theorem updateNote_overwrites_witness:
  "getNote notes_db ''t1'' = Some (mk_Note ''t1'' ''text'' ''<p>hi</p>'') \<and>
   n_type (mk_Note ''t1'' ''text'' ''<p>hi</p>'') \<noteq> ''file'' \<and>
   (\<exists>d' note'.
      updateNote example_env notes_db ''t1''
        \<lparr>u_title = Some ''renamed'', u_content = None, u_isProtected = None\<rparr> = Inr d' \<and>
      getNote d' ''t1'' = Some note' \<and>
      n_title note' = Some ''renamed'' \<and> n_content note' = None \<and> n_isProtected note' = None)"
proof -
  have g: "getNote notes_db ''t1'' = Some (mk_Note ''t1'' ''text'' ''<p>hi</p>'')"
    by (simp add: getNote_def notes_db_def empty_db_def mk_Note_def)
  have t: "n_type (mk_Note ''t1'' ''text'' ''<p>hi</p>'') \<noteq> ''file''"
    by (simp add: mk_Note_def)
  from updateNote_overwrites [OF g t, of example_env
      "\<lparr>u_title = Some ''renamed'', u_content = None, u_isProtected = None\<rparr>"] g t
  show ?thesis by auto
qed

section \<open>Deletion cascade: verified properties\<close>

text \<open>
  C9. \<^verbatim>\<open>deleteNote\<close> marks the branch object with the boolean \<^verbatim>\<open>true\<close> and tests
  \<^verbatim>\<open>branch.isDeleted === 1\<close>, so the object that a first call has marked passes the
  test of a second call. On the example, note \<open>C\<close> has the single placement \<open>bC\<close> and
  no children: the first call writes the branch and the note, and the second call, on the
  branch object as the first call left it, writes the branch and the note again. The
  rows are the same after the second call; the write log is two entries longer.
\<close>

theorem deleteNote_marked_again:
  "\<exists>d1 d2.
     deleteNote 8 shared_db (Some (mk_Branch ''bC'' ''C'' ''A'' 1 (Num 0))) = Some (Inr d1) \<and>
     deleteNote 8 d1 (Some (mk_Branch ''bC'' ''C'' ''A'' 1 (Bool True))) = Some (Inr d2) \<and>
     d_writes d1 =
       [W_branch (mk_Branch ''bC'' ''C'' ''A'' 1 (Bool True)),
        W_note ((mk_Note ''C'' ''text'' '''')\<lparr>n_isDeleted := True\<rparr>)] \<and>
     d_writes d2 =
       d_writes d1 @
       [W_branch (mk_Branch ''bC'' ''C'' ''A'' 1 (Bool True)),
        W_note ((mk_Note ''C'' ''text'' '''')\<lparr>n_isDeleted := True\<rparr>)] \<and>
     d_branches d2 = d_branches d1 \<and> d_notes d2 = d_notes d1"
  by (simp add: eval_nat_numeral shared_db_def empty_db_def mk_Note_def mk_Branch_def
      updateEntity_branch_def updateEntity_note_def replace_row_def getNote_def getBranches_def
      getChildBranches_def siblings_def Let_def)

text \<open>
  A missing branch, and a branch whose flag is the number 1, as the store returns it for
  a deleted row, make \<^verbatim>\<open>deleteNote\<close> return the store as it was, the write log
  included, whatever the fuel.
\<close>

lemma deleteNote_stored_noop:
  "deleteNote fuel d None = Some (Inr d) \<and>
   deleteNote fuel d (Some (branch\<lparr>b_isDeleted := Num 1\<rparr>)) = Some (Inr d)"
  by simp

lemma set_replace_row:
  "set (replace_row key rows e) = {r \<in> set rows. key r \<noteq> key e} \<union> {e}"
  by (auto simp: replace_row_def)

lemma distinct_replace_row:
  "distinct (map key rows) \<Longrightarrow> distinct (map key (replace_row key rows e))"
  by (auto simp: replace_row_def distinct_map_filter)

lemma set_replace_row_distinct:
  assumes "distinct (map key rows)" and "r \<in> set rows" and "key r = key e"
  shows "set (replace_row key rows e) = (set rows - {r}) \<union> {e}"
proof -
  have "inj_on key (set rows)"
    using assms(1) by (simp add: distinct_map)
  then have "{x \<in> set rows. key x \<noteq> key e} = set rows - {r}"
    using assms(2,3) by (fastforce simp: inj_on_def)
  then show ?thesis by (simp add: set_replace_row)
qed

lemma marked_self: "b = b\<lparr>b_isDeleted := Num 1\<rparr> \<Longrightarrow> b_isDeleted b = Num 1"
proof -
  assume "b = b\<lparr>b_isDeleted := Num 1\<rparr>"
  then have "b_isDeleted b = b_isDeleted (b\<lparr>b_isDeleted := Num 1\<rparr>)"
    by (rule arg_cong)
  then show ?thesis by simp
qed

lemma finite_live: "finite (live d)"
  by (simp add: live_def)

lemma getBranches_empty_iff:
  "getBranches d note = [] \<longleftrightarrow> (\<forall>b \<in> live d. b_noteId b \<noteq> n_noteId note)"
  by (auto simp: getBranches_def live_def filter_empty_conv)

lemma evolves_refl: "evolves d d"
  by (simp add: evolves_def)

lemma evolves_trans: "evolves d d' \<Longrightarrow> evolves d' d'' \<Longrightarrow> evolves d d''"
  unfolding evolves_def by fastforce

lemma known_evolves: "known d b \<Longrightarrow> evolves d d' \<Longrightarrow> known d' b"
  unfolding known_def evolves_def by fastforce

text \<open>The first write of deleteNote: the branch, marked deleted.\<close>

lemma mark_branch_rows:
  assumes wf: "distinct (map b_branchId (d_branches d))"
    and k: "known d b" and live_flag: "b_isDeleted b \<noteq> Num 1"
  shows "set (d_branches (updateEntity_branch d (b\<lparr>b_isDeleted := Bool True\<rparr>))) =
           (set (d_branches d) - {b}) \<union> {b\<lparr>b_isDeleted := Num 1\<rparr>}"
proof (cases "b \<in> set (d_branches d)")
  case True
  from set_replace_row_distinct [OF wf True, of "b\<lparr>b_isDeleted := Num 1\<rparr>"]
  show ?thesis by (simp add: updateEntity_branch_def)
next
  case False
  with k have s: "b\<lparr>b_isDeleted := Num 1\<rparr> \<in> set (d_branches d)"
    by (simp add: known_def)
  from set_replace_row_distinct [OF wf s, of "b\<lparr>b_isDeleted := Num 1\<rparr>"] False s
  show ?thesis by (auto simp: updateEntity_branch_def)
qed

lemma mark_branch_live:
  assumes "distinct (map b_branchId (d_branches d))" and "known d b" and "b_isDeleted b \<noteq> Num 1"
  shows "live (updateEntity_branch d (b\<lparr>b_isDeleted := Bool True\<rparr>)) = live d - {b}"
  unfolding live_def mark_branch_rows [OF assms] using assms(3) by (auto dest: marked_self)

lemma mark_branch_well_formed:
  assumes "well_formed d" and "known d b" and "b_isDeleted b \<noteq> Num 1"
  shows "well_formed (updateEntity_branch d (b\<lparr>b_isDeleted := Bool True\<rparr>))"
proof -
  let ?d1 = "updateEntity_branch d (b\<lparr>b_isDeleted := Bool True\<rparr>)"
  have wf: "distinct (map b_branchId (d_branches d))"
    using assms(1) by (simp add: well_formed_def)
  have "b_noteId b \<in> n_noteId ` set (d_notes d)"
    using assms(1,2) by (force simp: well_formed_def known_def)
  then have "\<forall>x \<in> set (d_branches ?d1). b_noteId x \<in> n_noteId ` set (d_notes ?d1)"
    using assms(1) mark_branch_rows [OF wf assms(2,3)]
    by (auto simp: well_formed_def updateEntity_branch_def)
  moreover have "distinct (map b_branchId (d_branches ?d1))"
    using wf by (simp add: updateEntity_branch_def distinct_replace_row)
  moreover have "distinct (map n_noteId (d_notes ?d1))"
    using assms(1) by (simp add: well_formed_def updateEntity_branch_def)
  ultimately show ?thesis by (simp add: well_formed_def)
qed

lemma mark_branch_evolves:
  assumes "distinct (map b_branchId (d_branches d))" and "known d b" and "b_isDeleted b \<noteq> Num 1"
  shows "evolves d (updateEntity_branch d (b\<lparr>b_isDeleted := Bool True\<rparr>))"
  unfolding evolves_def
proof
  fix x assume "x \<in> set (d_branches d)"
  then show "x \<in> set (d_branches (updateEntity_branch d (b\<lparr>b_isDeleted := Bool True\<rparr>))) \<or>
    x\<lparr>b_isDeleted := Num 1\<rparr> \<in> set (d_branches (updateEntity_branch d (b\<lparr>b_isDeleted := Bool True\<rparr>)))"
    unfolding mark_branch_rows [OF assms] by (cases "x = b") simp_all
qed
lemma deleteNote_live:
  "b_isDeleted b \<noteq> Num 1 \<Longrightarrow>
   deleteNote fuel d (Some b) =
     (case getNote (updateEntity_branch d (b\<lparr>b_isDeleted := Bool True\<rparr>)) (b_noteId b) of
        None \<Rightarrow> Some (Inl TypeError)
      | Some note \<Rightarrow>
          if getBranches (updateEntity_branch d (b\<lparr>b_isDeleted := Bool True\<rparr>)) note = []
          then deleteNote_children fuel
                 (getChildBranches
                    (updateEntity_note (updateEntity_branch d (b\<lparr>b_isDeleted := Bool True\<rparr>))
                       (note\<lparr>n_isDeleted := True\<rparr>))
                    (note\<lparr>n_isDeleted := True\<rparr>))
                 (updateEntity_note (updateEntity_branch d (b\<lparr>b_isDeleted := Bool True\<rparr>))
                    (note\<lparr>n_isDeleted := True\<rparr>))
          else Some (Inr (updateEntity_branch d (b\<lparr>b_isDeleted := Bool True\<rparr>))))"
  by (simp add: Let_def split: option.split)

lemma getNote_SomeD: "getNote d noteId = Some note \<Longrightarrow> note \<in> set (d_notes d) \<and> n_noteId note = noteId"
  by (auto simp: getNote_def find_Some_iff)

lemma getNote_exists:
  "noteId \<in> n_noteId ` set (d_notes d) \<Longrightarrow> \<exists>note. getNote d noteId = Some note"
  by (cases "getNote d noteId") (auto simp: getNote_def find_None_iff)

lemma known_noteId:
  "well_formed d \<Longrightarrow> known d b \<Longrightarrow> b_noteId b \<in> n_noteId ` set (d_notes d)"
  by (force simp: well_formed_def known_def)

lemma unique_note:
  "well_formed d \<Longrightarrow> n \<in> set (d_notes d) \<Longrightarrow> n' \<in> set (d_notes d) \<Longrightarrow>
   n_noteId n = n_noteId n' \<Longrightarrow> n = n'"
  by (auto simp: well_formed_def distinct_map dest: inj_onD)

text \<open>After the branch is marked, a note other than the branch's note has the branches it had.\<close>

lemma other_note_branches:
  assumes "distinct (map b_branchId (d_branches d))" and "known d b" and "b_isDeleted b \<noteq> Num 1"
    and "n_noteId n \<noteq> b_noteId b"
  shows "getBranches (updateEntity_branch d (b\<lparr>b_isDeleted := Bool True\<rparr>)) n = [] \<longleftrightarrow>
         getBranches d n = []"
  unfolding getBranches_empty_iff mark_branch_live [OF assms(1-3)] using assms(4) by auto

lemma mark_branch_invariant:
  assumes inv: "deleted_iff_unplaced d" and wf: "well_formed d"
    and k: "known d b" and f: "b_isDeleted b \<noteq> Num 1"
    and g: "getNote (updateEntity_branch d (b\<lparr>b_isDeleted := Bool True\<rparr>)) (b_noteId b) = Some note"
    and placed: "getBranches (updateEntity_branch d (b\<lparr>b_isDeleted := Bool True\<rparr>)) note \<noteq> []"
  shows "deleted_iff_unplaced (updateEntity_branch d (b\<lparr>b_isDeleted := Bool True\<rparr>))"
proof -
  let ?d1 = "updateEntity_branch d (b\<lparr>b_isDeleted := Bool True\<rparr>)"
  have keys: "distinct (map b_branchId (d_branches d))"
    using wf by (simp add: well_formed_def)
  have same_notes: "d_notes ?d1 = d_notes d"
    by (simp add: updateEntity_branch_def)
  from g have nt: "note \<in> set (d_notes d)" "n_noteId note = b_noteId b"
    using getNote_SomeD [of ?d1 "b_noteId b" "note"] by (simp_all add: same_notes)
  have "n_isDeleted n \<longleftrightarrow> getBranches ?d1 n = []" if n: "n \<in> set (d_notes d)" for n
  proof (cases "n_noteId n = b_noteId b")
    case True
    with n nt wf have "n = note" by (auto intro: unique_note)
    moreover from placed have "getBranches d note \<noteq> []"
      unfolding getBranches_empty_iff mark_branch_live [OF keys k f] by auto
    with inv nt(1) have "\<not> n_isDeleted note"
      by (simp add: deleted_iff_unplaced_def)
    ultimately show ?thesis using placed by simp
  next
    case False
    from other_note_branches [OF keys k f False] inv n show ?thesis
      by (simp add: deleted_iff_unplaced_def)
  qed
  then show ?thesis by (simp add: deleted_iff_unplaced_def same_notes)
qed

lemma mark_note_invariant:
  assumes inv: "deleted_iff_unplaced d" and wf: "well_formed d"
    and k: "known d b" and f: "b_isDeleted b \<noteq> Num 1"
    and g: "getNote (updateEntity_branch d (b\<lparr>b_isDeleted := Bool True\<rparr>)) (b_noteId b) = Some note"
    and unplaced: "getBranches (updateEntity_branch d (b\<lparr>b_isDeleted := Bool True\<rparr>)) note = []"
  shows "deleted_iff_unplaced
           (updateEntity_note (updateEntity_branch d (b\<lparr>b_isDeleted := Bool True\<rparr>))
              (note\<lparr>n_isDeleted := True\<rparr>))"
proof -
  let ?d1 = "updateEntity_branch d (b\<lparr>b_isDeleted := Bool True\<rparr>)"
  let ?d2 = "updateEntity_note ?d1 (note\<lparr>n_isDeleted := True\<rparr>)"
  have keys: "distinct (map b_branchId (d_branches d))"
    using wf by (simp add: well_formed_def)
  have same_notes: "d_notes ?d1 = d_notes d"
    by (simp add: updateEntity_branch_def)
  from g have nt: "note \<in> set (d_notes d)" "n_noteId note = b_noteId b"
    using getNote_SomeD [of ?d1 "b_noteId b" "note"] by (simp_all add: same_notes)
  have branches: "getBranches ?d2 n = getBranches ?d1 n" for n
    by (simp add: getBranches_def updateEntity_note_def)
  have rows: "set (d_notes ?d2) = (set (d_notes d) - {note}) \<union> {note\<lparr>n_isDeleted := True\<rparr>}"
    using set_replace_row_distinct [of n_noteId "d_notes d" "note" "note\<lparr>n_isDeleted := True\<rparr>"]
      wf nt(1)
    by (simp add: updateEntity_note_def same_notes well_formed_def)
  have "n_isDeleted n \<longleftrightarrow> getBranches ?d1 n = []" if n: "n \<in> set (d_notes ?d2)" for n
  proof (cases "n = note\<lparr>n_isDeleted := True\<rparr>")
    case True
    have "getBranches ?d1 (note\<lparr>n_isDeleted := True\<rparr>) = getBranches ?d1 note"
      by (simp add: getBranches_def)
    with True unplaced show ?thesis by simp
  next
    case False
    with n rows have n': "n \<in> set (d_notes d)" "n \<noteq> note" by auto
    with nt wf have "n_noteId n \<noteq> b_noteId b"
      by (auto dest: unique_note)
    from other_note_branches [OF keys k f this] inv n'(1) show ?thesis
      by (simp add: deleted_iff_unplaced_def)
  qed
  then show ?thesis by (simp add: deleted_iff_unplaced_def branches)
qed

lemma mark_note_well_formed:
  assumes "well_formed d1" and "note \<in> set (d_notes d1)"
  shows "well_formed (updateEntity_note d1 (note\<lparr>n_isDeleted := True\<rparr>))"
proof -
  let ?d2 = "updateEntity_note d1 (note\<lparr>n_isDeleted := True\<rparr>)"
  have "n_noteId ` set (d_notes ?d2) = n_noteId ` set (d_notes d1)"
    using assms(2) by (auto simp: updateEntity_note_def set_replace_row image_iff)
  moreover have "distinct (map n_noteId (d_notes ?d2))"
    using assms(1) by (simp add: well_formed_def updateEntity_note_def distinct_replace_row)
  moreover have "d_branches ?d2 = d_branches d1"
    by (simp add: updateEntity_note_def)
  ultimately show ?thesis using assms(1) by (simp add: well_formed_def)
qed
lemma cascade_post_trans:
  "cascade_post d d' \<Longrightarrow> evolves d0 d \<Longrightarrow> card (live d) \<le> card (live d0) \<Longrightarrow>
   cascade_post d0 d'"
  by (auto simp: cascade_post_def intro: evolves_trans)

lemma live_pos: "b \<in> live d \<Longrightarrow> 0 < card (live d)"
  using finite_live [of d] by (auto simp: card_gt_0_iff)

text \<open>
  The loop over the child branches, given that a call with fuel \<open>j\<close> returns on every
  branch whose measure is at most \<open>j\<close>.
\<close>

lemma deleteNote_children_returns:
  assumes H: "\<And>d b. deleted_iff_unplaced d \<Longrightarrow> well_formed d \<Longrightarrow> known d b \<Longrightarrow>
      b_isDeleted b \<noteq> Num 1 \<Longrightarrow>
      2 * card (live d) + (if b \<in> live d then 0 else 1) \<le> j \<Longrightarrow>
      \<exists>d'. deleteNote j d (Some b) = Some (Inr d') \<and> cascade_post d d' \<and>
           (b \<in> live d \<longrightarrow> card (live d') < card (live d))"
  shows "deleted_iff_unplaced d \<Longrightarrow> well_formed d \<Longrightarrow>
     \<forall>c \<in> set cs. known d c \<and> b_isDeleted c = Num 0 \<Longrightarrow>
     cs = [] \<or> 2 * card (live d) + 1 \<le> j \<or> (hd cs \<in> live d \<and> 2 * card (live d) \<le> j) \<Longrightarrow>
     \<exists>d'. deleteNote_children (Suc j) cs d = Some (Inr d') \<and> cascade_post d d'"
proof (induction cs arbitrary: d)
  case Nil
  then show ?case by (simp add: cascade_post_def evolves_refl)
next
  case (Cons c cs)
  from Cons.prems(3) have c: "known d c" "b_isDeleted c \<noteq> Num 1" by simp_all
  from Cons.prems(4) have m: "2 * card (live d) + (if c \<in> live d then 0 else 1) \<le> j"
    by auto
  from H [OF Cons.prems(1,2) c m] obtain d1 where
    d1: "deleteNote j d (Some c) = Some (Inr d1)" "cascade_post d d1"
      "c \<in> live d \<longrightarrow> card (live d1) < card (live d)"
    by blast
  from d1(2) have p1: "deleted_iff_unplaced d1" "well_formed d1" "evolves d d1"
    "card (live d1) \<le> card (live d)"
    by (simp_all add: cascade_post_def)
  have k1: "\<forall>c' \<in> set cs. known d1 c' \<and> b_isDeleted c' = Num 0"
    using Cons.prems(3) p1(3) by (auto intro: known_evolves)
  have g1: "cs = [] \<or> 2 * card (live d1) + 1 \<le> j \<or>
            (hd cs \<in> live d1 \<and> 2 * card (live d1) \<le> j)"
    using Cons.prems(4) d1(3) p1(4) by auto
  from Cons.IH [OF p1(1,2) k1 g1] obtain d' where
    d': "deleteNote_children (Suc j) cs d1 = Some (Inr d')" "cascade_post d1 d'"
    by blast
  have "cascade_post d d'"
    using d'(2) p1(3,4) by (rule cascade_post_trans)
  with d1(1) d'(1) show ?case by simp
qed

lemma deleteNote_returns:
  "deleted_iff_unplaced d \<Longrightarrow> well_formed d \<Longrightarrow> known d b \<Longrightarrow> b_isDeleted b \<noteq> Num 1 \<Longrightarrow>
   2 * card (live d) + (if b \<in> live d then 0 else 1) \<le> fuel \<Longrightarrow>
   \<exists>d'. deleteNote fuel d (Some b) = Some (Inr d') \<and> cascade_post d d' \<and>
        (b \<in> live d \<longrightarrow> card (live d') < card (live d))"
proof (induction fuel arbitrary: d b)
  case 0
  show ?case
  proof (cases "b \<in> live d")
    case True
    with live_pos [OF True] "0.prems"(5) show ?thesis by simp
  next
    case False
    with "0.prems"(5) show ?thesis by simp
  qed
next
  case (Suc j)
  let ?d1 = "updateEntity_branch d (b\<lparr>b_isDeleted := Bool True\<rparr>)"
  have keys: "distinct (map b_branchId (d_branches d))"
    using Suc.prems(2) by (simp add: well_formed_def)
  have wf1: "well_formed ?d1"
    using Suc.prems(2-4) by (rule mark_branch_well_formed)
  have ev1: "evolves d ?d1"
    using keys Suc.prems(3,4) by (rule mark_branch_evolves)
  have live1: "live ?d1 = live d - {b}"
    using keys Suc.prems(3,4) by (rule mark_branch_live)
  have card1: "card (live ?d1) \<le> card (live d)"
    unfolding live1 using finite_live [of d] by (simp add: card_Diff1_le)
  have card1': "card (live ?d1) < card (live d)" if "b \<in> live d"
    unfolding live1 using finite_live [of d] that by (rule card_Diff1_less)
  have "b_noteId b \<in> n_noteId ` set (d_notes ?d1)"
    using known_noteId [OF Suc.prems(2,3)] by (simp add: updateEntity_branch_def)
  then obtain nt where g: "getNote ?d1 (b_noteId b) = Some nt"
    using getNote_exists by blast
  then have nt: "nt \<in> set (d_notes ?d1)"
    by (simp add: getNote_SomeD)
  show ?case
  proof (cases "getBranches ?d1 nt = []")
    case False
    have "deleted_iff_unplaced ?d1"
      using Suc.prems(1-4) g False by (rule mark_branch_invariant)
    with wf1 ev1 card1 have "cascade_post d ?d1"
      by (simp add: cascade_post_def)
    moreover have "deleteNote (Suc j) d (Some b) = Some (Inr ?d1)"
      using Suc.prems(4) g False by (simp add: deleteNote_live)
    ultimately show ?thesis using card1' by blast
  next
    case True
    let ?nt' = "nt\<lparr>n_isDeleted := True\<rparr>"
    let ?d2 = "updateEntity_note ?d1 ?nt'"
    let ?cs = "getChildBranches ?d2 ?nt'"
    have inv2: "deleted_iff_unplaced ?d2"
      using Suc.prems(1-4) g True by (rule mark_note_invariant)
    have wf2: "well_formed ?d2"
      using wf1 nt by (rule mark_note_well_formed)
    have b2: "d_branches ?d2 = d_branches ?d1"
      by (simp add: updateEntity_note_def)
    then have live2: "live ?d2 = live ?d1"
      by (simp add: live_def)
    have ev2: "evolves d ?d2"
      using ev1 by (simp add: evolves_def b2)
    have cs: "\<forall>c \<in> set ?cs. c \<in> live ?d2"
      by (simp add: getChildBranches_def in_siblings live_def)
    then have kn: "\<forall>c \<in> set ?cs. known ?d2 c \<and> b_isDeleted c = Num 0"
      by (simp add: known_def live_def)
    have guard: "?cs = [] \<or> 2 * card (live ?d2) + 1 \<le> j \<or>
                 (hd ?cs \<in> live ?d2 \<and> 2 * card (live ?d2) \<le> j)"
    proof (cases "b \<in> live d")
      case True
      from card1' [OF True] Suc.prems(5) True have "2 * card (live ?d2) + 1 \<le> j"
        by (simp add: live2)
      then show ?thesis by simp
    next
      case False
      with Suc.prems(5) card1 have "2 * card (live ?d2) \<le> j"
        by (simp add: live2)
      moreover have "hd ?cs \<in> live ?d2" if "?cs \<noteq> []"
        using cs that by (meson hd_in_set)
      ultimately show ?thesis by blast
    qed
    from deleteNote_children_returns [of j ?d2 ?cs, OF Suc.IH inv2 wf2 kn guard]
    obtain d' where d': "deleteNote_children (Suc j) ?cs ?d2 = Some (Inr d')" "cascade_post ?d2 d'"
      by blast
    have card2: "card (live ?d2) \<le> card (live d)"
      using card1 by (simp add: live2)
    have "cascade_post d d'"
      using d'(2) ev2 card2 by (rule cascade_post_trans)
    moreover have "deleteNote (Suc j) d (Some b) = Some (Inr d')"
      using Suc.prems(4) g True d'(1) by (simp add: deleteNote_live)
    moreover have "card (live d') < card (live d)" if "b \<in> live d"
      using d'(2) card1' [OF that] by (simp add: cascade_post_def live2)
    ultimately show ?thesis by blast
  qed
qed

text \<open>
  C5. In a store with the invariant (a note is marked deleted if and only if it has no
  branch that is not deleted) and with proper keys, \<^verbatim>\<open>deleteNote\<close> on a missing
  branch or on a branch of the store returns, within fuel twice the number of branches,
  a store with the invariant: there, a note is marked deleted exactly when none of its
  branches is live, so a note that keeps a live placement is not marked deleted.
\<close>

theorem deleteNote_deleted_iff_unplaced:
  assumes "deleted_iff_unplaced d"
    and "well_formed d"
    and "\<forall>b. branch = Some b \<longrightarrow> b \<in> set (d_branches d)"
    and "2 * length (d_branches d) \<le> fuel"
  shows "\<exists>d'. deleteNote fuel d branch = Some (Inr d') \<and> deleted_iff_unplaced d' \<and>
           (\<forall>note \<in> set (d_notes d'). getBranches d' note \<noteq> [] \<longrightarrow> \<not> n_isDeleted note)"
proof -
  have "\<exists>d'. deleteNote fuel d branch = Some (Inr d') \<and> deleted_iff_unplaced d'"
  proof (cases branch)
    case None
    with assms(1) show ?thesis by simp
  next
    case (Some b)
    with assms(3) have row: "b \<in> set (d_branches d)" by simp
    show ?thesis
    proof (cases "b_isDeleted b = Num 1")
      case True
      with assms(1) Some show ?thesis by simp
    next
      case False
      have m: "2 * card (live d) + (if b \<in> live d then 0 else 1) \<le> fuel"
      proof (cases "b \<in> live d")
        case True
        have "card (live d) \<le> length (d_branches d)"
          using card_mono [of "set (d_branches d)" "live d"] card_length [of "d_branches d"]
          by (auto simp: live_def)
        with True assms(4) show ?thesis by simp
      next
        case False
        with row have "live d \<subseteq> set (d_branches d) - {b}"
          by (auto simp: live_def)
        then have "card (live d) \<le> card (set (d_branches d) - {b})"
          by (simp add: card_mono)
        also have "\<dots> < card (set (d_branches d))"
          using row by (intro card_Diff1_less) simp_all
        also have "\<dots> \<le> length (d_branches d)"
          by (rule card_length)
        finally show ?thesis using False assms(4) by simp
      qed
      from deleteNote_returns [OF assms(1,2) _ False m] row Some
      show ?thesis by (auto simp: known_def cascade_post_def)
    qed
  qed
  then show ?thesis
    by (auto simp: deleted_iff_unplaced_def)
qed

text \<open>
  On the example: deleting the placement of \<open>A\<close> marks \<open>A\<close> deleted and cascades to its
  child branches; \<open>C\<close> loses its only placement and is marked deleted, \<open>B\<close> keeps its
  placement under the root and is not.
\<close>

theorem deleteNote_deleted_iff_unplaced_witness:
  "deleted_iff_unplaced shared_db \<and> well_formed shared_db \<and>
   (\<exists>d'. deleteNote 8 shared_db (Some (mk_Branch ''bA'' ''A'' ''root'' 0 (Num 0))) = Some (Inr d') \<and>
         deleted_iff_unplaced d' \<and>
         map (\<lambda>n. (n_noteId n, n_isDeleted n)) (d_notes d') =
           [(''B'', False), (''A'', True), (''C'', True)] \<and>
         map (\<lambda>b. (b_branchId b, b_isDeleted b)) (d_branches d') =
           [(''bB2'', Num 0), (''bA'', Num 1), (''bB'', Num 1), (''bC'', Num 1)])"
proof -
  have inv: "deleted_iff_unplaced shared_db"
    by (simp add: deleted_iff_unplaced_def shared_db_def empty_db_def getBranches_def
        mk_Note_def mk_Branch_def)
  have wf: "well_formed shared_db"
    by (simp add: well_formed_def shared_db_def empty_db_def mk_Note_def mk_Branch_def)
  have b: "\<forall>b. Some (mk_Branch ''bA'' ''A'' ''root'' 0 (Num 0)) = Some b \<longrightarrow>
               b \<in> set (d_branches shared_db)"
    by (simp add: shared_db_def empty_db_def)
  have f: "2 * length (d_branches shared_db) \<le> 8"
    by (simp add: shared_db_def empty_db_def)
  have run: "\<exists>d'. deleteNote 8 shared_db (Some (mk_Branch ''bA'' ''A'' ''root'' 0 (Num 0))) = Some (Inr d') \<and>
         map (\<lambda>n. (n_noteId n, n_isDeleted n)) (d_notes d') =
           [(''B'', False), (''A'', True), (''C'', True)] \<and>
         map (\<lambda>b. (b_branchId b, b_isDeleted b)) (d_branches d') =
           [(''bB2'', Num 0), (''bA'', Num 1), (''bB'', Num 1), (''bC'', Num 1)]"
    by (simp add: eval_nat_numeral shared_db_def empty_db_def mk_Note_def mk_Branch_def
        updateEntity_branch_def updateEntity_note_def replace_row_def getNote_def getBranches_def
        getChildBranches_def siblings_def Let_def)
  from deleteNote_deleted_iff_unplaced [OF inv wf b f] run inv wf show ?thesis
    by auto
qed

section \<open>Protection propagator: verified properties\<close>

lemma protectNoteRevisions_fold:
  "protectNoteRevisions d note =
     fold (protect_revision (n_isProtected note)) (getRevisions d note) d"
  by (simp add: protectNoteRevisions_def protect_revision_def [abs_def])

lemma protect_revision_other_tables:
  "d_notes (protect_revision p r d) = d_notes d"
  "d_branches (protect_revision p r d) = d_branches d"
  by (simp_all add: protect_revision_def updateEntity_note_revision_def)

lemma fold_protect_revision_other_tables:
  "d_notes (fold (protect_revision p) rs d) = d_notes d"
  "d_branches (fold (protect_revision p) rs d) = d_branches d"
  by (induction rs arbitrary: d) (simp_all add: protect_revision_other_tables)

lemma protect_revision_rows:
  "row \<in> set (d_note_revisions (protect_revision p r d)) \<Longrightarrow>
   row \<in> set (d_note_revisions d) \<or> r_isProtected row = p"
  by (auto simp: protect_revision_def updateEntity_note_revision_def set_replace_row
      split: if_splits)

lemma fold_protect_revision_rows:
  "row \<in> set (d_note_revisions (fold (protect_revision p) rs d)) \<Longrightarrow>
   row \<in> set (d_note_revisions d) \<or> r_isProtected row = p"
proof (induction rs arbitrary: d)
  case Nil
  then show ?case by simp
next
  case (Cons r rs)
  from Cons.IH [of "protect_revision p r d"] Cons.prems
  have "row \<in> set (d_note_revisions (protect_revision p r d)) \<or> r_isProtected row = p"
    by simp
  then show ?case by (auto dest: protect_revision_rows)
qed

lemma protect_revision_self:
  "r \<in> set (d_note_revisions (protect_revision p r d)) \<Longrightarrow> r_isProtected r = p"
proof (cases "p = r_isProtected r")
  case True
  then show ?thesis by simp
next
  case False
  assume "r \<in> set (d_note_revisions (protect_revision p r d))"
  with False have "r = r\<lparr>r_isProtected := p\<rparr>"
    by (auto simp: protect_revision_def updateEntity_note_revision_def set_replace_row)
  then have "r_isProtected r = r_isProtected (r\<lparr>r_isProtected := p\<rparr>)"
    by (rule arg_cong)
  then show ?thesis by simp
qed

lemma fold_protect_revision_processed:
  "row \<in> set (d_note_revisions (fold (protect_revision p) rs d)) \<Longrightarrow> row \<in> set rs \<Longrightarrow>
   r_isProtected row = p"
proof (induction rs arbitrary: d)
  case Nil
  then show ?case by simp
next
  case (Cons r rs)
  show ?case
  proof (cases "row \<in> set rs")
    case True
    from Cons.IH [of "protect_revision p r d"] Cons.prems(1) True show ?thesis by simp
  next
    case False
    with Cons.prems(2) have "row = r" by simp
    from Cons.prems(1)
    have "row \<in> set (d_note_revisions (protect_revision p r d)) \<or> r_isProtected row = p"
      using fold_protect_revision_rows [of row p rs "protect_revision p r d"] by simp
    with \<open>row = r\<close> show ?thesis by (auto dest: protect_revision_self)
  qed
qed

lemma protectNoteRevisions_protects:
  assumes "n_isProtected note = Some True"
  shows "revisions_protected (protectNoteRevisions d note) (n_noteId note)"
  unfolding revisions_protected_def
proof (intro ballI impI)
  fix row
  assume row: "row \<in> set (d_note_revisions (protectNoteRevisions d note))"
    and id: "r_noteId row = n_noteId note"
  from row have "row \<in> set (d_note_revisions d) \<or> r_isProtected row = Some True"
    using fold_protect_revision_rows [of row "Some True" "getRevisions d note" d] assms
    by (simp add: protectNoteRevisions_fold)
  then show "r_isProtected row = Some True"
  proof
    assume "row \<in> set (d_note_revisions d)"
    with id have "row \<in> set (getRevisions d note)"
      by (simp add: getRevisions_def)
    with row show ?thesis
      using fold_protect_revision_processed [of row "Some True" "getRevisions d note" d] assms
      by (simp add: protectNoteRevisions_fold)
  qed
qed

lemma protectNoteRevisions_mono:
  assumes "n_isProtected note = Some True" and "revisions_protected d x"
  shows "revisions_protected (protectNoteRevisions d note) x"
  using assms fold_protect_revision_rows [of _ "Some True" "getRevisions d note" d]
  unfolding revisions_protected_def protectNoteRevisions_fold by auto

lemma protectNoteRevisions_other_tables:
  "d_notes (protectNoteRevisions d note) = d_notes d"
  "d_branches (protectNoteRevisions d note) = d_branches d"
  by (simp_all add: protectNoteRevisions_fold fold_protect_revision_other_tables)
lemma protect_frame_refl: "protect_frame d d"
  by (simp add: protect_frame_def)

lemma protect_frame_trans:
  "protect_frame d d' \<Longrightarrow> protect_frame d' d'' \<Longrightarrow> protect_frame d d''"
  by (simp add: protect_frame_def)

lemma child_rel_frame: "protect_frame d d' \<Longrightarrow> child_rel d' = child_rel d"
  by (simp add: protect_frame_def child_rel_def)

lemma getChildNotes_rows:
  "c \<in> set (getChildNotes d note) \<Longrightarrow>
   c \<in> set (d_notes d) \<and> (n_noteId note, n_noteId c) \<in> child_rel d"
  by (force simp: getChildNotes_def child_rel_def)

lemma child_rel_getChildNotes:
  "(n_noteId note, y) \<in> child_rel d \<Longrightarrow> \<exists>c \<in> set (getChildNotes d note). n_noteId c = y"
  by (force simp: getChildNotes_def child_rel_def)

lemma getChildNotes_noteId:
  "n_noteId note' = n_noteId note \<Longrightarrow> getChildNotes d note' = getChildNotes d note"
  by (simp add: getChildNotes_def)

lemma row_protected:
  "distinct (map n_noteId (d_notes d)) \<Longrightarrow> c \<in> set (d_notes d) \<Longrightarrow>
   n_isProtected c = Some True \<Longrightarrow> note_protected d (n_noteId c)"
  by (auto simp: note_protected_def distinct_map dest: inj_onD)

text \<open>What protectNote with \<open>protect = true\<close> establishes.\<close>

lemma protectNote_true:
  assumes ids: "n_noteId note \<in> n_noteId ` set (d_notes d)"
    and stale: "n_isProtected note = Some True \<longrightarrow> note_protected d (n_noteId note)"
    and run: "protectNote d note True = (note', d')"
  shows "n_noteId note' = n_noteId note \<and> protect_frame d d' \<and>
         note_protected d' (n_noteId note) \<and> revisions_protected d' (n_noteId note)"
proof (cases "n_isProtected note = Some True")
  case True
  with run have r: "note' = note" "d' = protectNoteRevisions d note"
    by (auto simp: protectNote_def)
  have "protect_frame d d'"
    using True by (simp add: protect_frame_def r protectNoteRevisions_other_tables
        protectNoteRevisions_mono note_protected_def)
  moreover have "note_protected d' (n_noteId note)"
    using True stale by (simp add: note_protected_def r protectNoteRevisions_other_tables)
  moreover have "revisions_protected d' (n_noteId note)"
    using True by (simp add: r protectNoteRevisions_protects)
  ultimately show ?thesis using r by simp
next
  case False
  define nt where "nt = note\<lparr>n_isProtected := Some True\<rparr>"
  define d1 where "d1 = updateEntity_note d nt"
  from False run have r: "note' = nt" "d' = protectNoteRevisions d1 nt"
    by (auto simp: protectNote_def Let_def nt_def d1_def)
  have nt: "n_noteId nt = n_noteId note" "n_isProtected nt = Some True"
    by (simp_all add: nt_def)
  have rows: "set (d_notes d1) = {n \<in> set (d_notes d). n_noteId n \<noteq> n_noteId note} \<union> {nt}"
    by (simp add: d1_def updateEntity_note_def set_replace_row nt)
  have notes': "d_notes d' = d_notes d1"
    by (simp add: r protectNoteRevisions_other_tables)
  have prot: "note_protected d' (n_noteId note)"
    by (auto simp: note_protected_def notes' rows nt)
  have mono: "note_protected d' x" if "note_protected d x" for x
    using that by (auto simp: note_protected_def notes' rows nt)
  have same_ids: "n_noteId ` set (d_notes d') = n_noteId ` set (d_notes d)"
    using ids by (auto simp: notes' rows nt image_iff)
  have dist: "distinct (map n_noteId (d_notes d'))" if "distinct (map n_noteId (d_notes d))"
    using that by (simp add: notes' d1_def updateEntity_note_def distinct_replace_row)
  have revs: "revisions_protected d' x" if "revisions_protected d x" for x
  proof -
    from that have "revisions_protected d1 x"
      by (simp add: revisions_protected_def d1_def updateEntity_note_def)
    with nt(2) show ?thesis
      unfolding r by (rule protectNoteRevisions_mono)
  qed
  have "d_branches d' = d_branches d"
    by (simp add: r protectNoteRevisions_other_tables d1_def updateEntity_note_def)
  with same_ids dist mono revs have "protect_frame d d'"
    by (simp add: protect_frame_def)
  moreover have "revisions_protected d' (n_noteId note)"
    using protectNoteRevisions_protects [OF nt(2), of d1] by (simp add: r nt)
  ultimately show ?thesis using prot r nt by simp
qed

text \<open>More fuel does not change the result of a call that returned.\<close>

lemma protect_children_fuel:
  assumes "\<And>d child d'. protectNoteRecursively k d child p = Some d' \<Longrightarrow>
             protectNoteRecursively k' d child p = Some d'"
  shows "protect_children k cs p d = Some d' \<Longrightarrow> protect_children k' cs p d = Some d'"
proof (induction cs arbitrary: d)
  case Nil
  then show ?case by simp
next
  case (Cons c cs)
  from Cons.prems obtain d1 where
    d1: "protectNoteRecursively k d c p = Some d1" "protect_children k cs p d1 = Some d'"
    by (auto split: option.splits)
  from assms [OF d1(1)] Cons.IH [OF d1(2)] show ?case by simp
qed

lemma protectNoteRecursively_fuel:
  "protectNoteRecursively k d note' p = Some d' \<Longrightarrow> k \<le> k' \<Longrightarrow>
   protectNoteRecursively k' d note' p = Some d'"
proof (induction k arbitrary: k' d note' d')
  case 0
  then show ?case by simp
next
  case (Suc k)
  from Suc.prems(2) obtain j where j: "k' = Suc j" "k \<le> j"
    by (cases k') simp_all
  obtain nt d1 where p: "protectNote d note' p = (nt, d1)"
    by (cases "protectNote d note' p")
  with Suc.prems(1) have "protect_children k (getChildNotes d1 nt) p d1 = Some d'"
    by simp
  then have "protect_children j (getChildNotes d1 nt) p d1 = Some d'"
    by (rule protect_children_fuel [rotated]) (rule Suc.IH [OF _ j(2)])
  with p j(1) show ?case by simp
qed
lemma protect_children_fuel_mono:
  assumes "protect_children k cs p d = Some d'" and "k \<le> k'"
  shows "protect_children k' cs p d = Some d'"
  using assms(1)
proof (rule protect_children_fuel [rotated])
  fix da child d'a
  assume "protectNoteRecursively k da child p = Some d'a"
  then show "protectNoteRecursively k' da child p = Some d'a"
    using assms(2) by (rule protectNoteRecursively_fuel)
qed

lemma protect_children_returns:
  assumes IH: "\<And>c d. (x, n_noteId c) \<in> R \<Longrightarrow> child_rel d = R \<Longrightarrow>
      distinct (map n_noteId (d_notes d)) \<Longrightarrow> n_noteId c \<in> n_noteId ` set (d_notes d) \<Longrightarrow>
      (n_isProtected c = Some True \<longrightarrow> note_protected d (n_noteId c)) \<Longrightarrow>
      \<exists>k d'. protectNoteRecursively k d c True = Some d' \<and> protect_frame d d' \<and>
        (\<forall>y. (n_noteId c, y) \<in> R\<^sup>* \<longrightarrow> note_protected d' y \<and> revisions_protected d' y)"
  shows "child_rel d = R \<Longrightarrow> distinct (map n_noteId (d_notes d)) \<Longrightarrow>
     \<forall>c \<in> set cs. (x, n_noteId c) \<in> R \<and> n_noteId c \<in> n_noteId ` set (d_notes d) \<and>
        (n_isProtected c = Some True \<longrightarrow> note_protected d (n_noteId c)) \<Longrightarrow>
     \<exists>k d'. protect_children k cs True d = Some d' \<and> protect_frame d d' \<and>
        (\<forall>c \<in> set cs. \<forall>y. (n_noteId c, y) \<in> R\<^sup>* \<longrightarrow>
           note_protected d' y \<and> revisions_protected d' y)"
proof (induction cs arbitrary: d)
  case Nil
  have "protect_children 0 [] True d = Some d" by simp
  then show ?case using protect_frame_refl by fastforce
next
  case (Cons c cs)
  from Cons.prems(3) have c: "(x, n_noteId c) \<in> R" "n_noteId c \<in> n_noteId ` set (d_notes d)"
    "n_isProtected c = Some True \<longrightarrow> note_protected d (n_noteId c)"
    by simp_all
  from IH [OF c(1) Cons.prems(1,2) c(2,3)] obtain k1 d1 where
    d1: "protectNoteRecursively k1 d c True = Some d1" "protect_frame d d1"
      "\<forall>y. (n_noteId c, y) \<in> R\<^sup>* \<longrightarrow> note_protected d1 y \<and> revisions_protected d1 y"
    by blast
  have rel1: "child_rel d1 = R"
    using d1(2) Cons.prems(1) by (simp add: child_rel_frame)
  have dist1: "distinct (map n_noteId (d_notes d1))"
    using d1(2) Cons.prems(2) by (simp add: protect_frame_def)
  have rest: "\<forall>c \<in> set cs. (x, n_noteId c) \<in> R \<and> n_noteId c \<in> n_noteId ` set (d_notes d1) \<and>
        (n_isProtected c = Some True \<longrightarrow> note_protected d1 (n_noteId c))"
    using Cons.prems(3) d1(2) by (simp add: protect_frame_def)
  from Cons.IH [OF rel1 dist1 rest] obtain k2 d2 where
    d2: "protect_children k2 cs True d1 = Some d2" "protect_frame d1 d2"
      "\<forall>c \<in> set cs. \<forall>y. (n_noteId c, y) \<in> R\<^sup>* \<longrightarrow>
           note_protected d2 y \<and> revisions_protected d2 y"
    by blast
  have "protectNoteRecursively (max k1 k2) d c True = Some d1"
    using d1(1) by (rule protectNoteRecursively_fuel) simp
  moreover have "protect_children (max k1 k2) cs True d1 = Some d2"
    using d2(1) by (rule protect_children_fuel_mono) simp
  ultimately have run: "protect_children (max k1 k2) (c # cs) True d = Some d2"
    by simp
  have frame: "protect_frame d d2"
    using d1(2) d2(2) by (rule protect_frame_trans)
  have "\<forall>y. (n_noteId c, y) \<in> R\<^sup>* \<longrightarrow> note_protected d2 y \<and> revisions_protected d2 y"
    using d1(3) d2(2) by (simp add: protect_frame_def)
  with d2(3) have "\<forall>c' \<in> set (c # cs). \<forall>y. (n_noteId c', y) \<in> R\<^sup>* \<longrightarrow>
           note_protected d2 y \<and> revisions_protected d2 y"
    by simp
  with run frame show ?case by blast
qed

lemma protectNoteRecursively_returns:
  assumes "wf (R\<inverse>)"
  shows "child_rel d = R \<Longrightarrow> distinct (map n_noteId (d_notes d)) \<Longrightarrow> n_noteId nt = x \<Longrightarrow>
     x \<in> n_noteId ` set (d_notes d) \<Longrightarrow>
     (n_isProtected nt = Some True \<longrightarrow> note_protected d x) \<Longrightarrow>
     \<exists>k d'. protectNoteRecursively k d nt True = Some d' \<and> protect_frame d d' \<and>
        (\<forall>y. (x, y) \<in> R\<^sup>* \<longrightarrow> note_protected d' y \<and> revisions_protected d' y)"
  using assms
proof (induction x arbitrary: d nt rule: wf_induct_rule)
  case (less x)
  obtain nt' d1 where p: "protectNote d nt True = (nt', d1)"
    by (cases "protectNote d nt True")
  from protectNote_true [OF _ _ p] less.prems(3,4,5)
  have p1: "n_noteId nt' = x" "protect_frame d d1" "note_protected d1 x" "revisions_protected d1 x"
    by simp_all
  have rel1: "child_rel d1 = R"
    using p1(2) less.prems(1) by (simp add: child_rel_frame)
  have dist1: "distinct (map n_noteId (d_notes d1))"
    using p1(2) less.prems(2) by (simp add: protect_frame_def)
  let ?cs = "getChildNotes d1 nt'"
  have cs: "\<forall>c \<in> set ?cs. (x, n_noteId c) \<in> R \<and> n_noteId c \<in> n_noteId ` set (d_notes d1) \<and>
        (n_isProtected c = Some True \<longrightarrow> note_protected d1 (n_noteId c))"
  proof
    fix c assume "c \<in> set ?cs"
    then have c: "c \<in> set (d_notes d1)" "(x, n_noteId c) \<in> R"
      using getChildNotes_rows [of c d1 nt'] by (simp_all add: rel1 p1(1))
    then show "(x, n_noteId c) \<in> R \<and> n_noteId c \<in> n_noteId ` set (d_notes d1) \<and>
        (n_isProtected c = Some True \<longrightarrow> note_protected d1 (n_noteId c))"
      using row_protected [OF dist1, of c] by simp
  qed
  have "\<exists>k d'. protect_children k ?cs True d1 = Some d' \<and> protect_frame d1 d' \<and>
        (\<forall>c \<in> set ?cs. \<forall>y. (n_noteId c, y) \<in> R\<^sup>* \<longrightarrow>
           note_protected d' y \<and> revisions_protected d' y)"
  proof (rule protect_children_returns [OF _ rel1 dist1 cs])
    fix c :: Note and d
    assume "(x, n_noteId c) \<in> R" "child_rel d = R" "distinct (map n_noteId (d_notes d))"
      "n_noteId c \<in> n_noteId ` set (d_notes d)"
      "n_isProtected c = Some True \<longrightarrow> note_protected d (n_noteId c)"
    then show "\<exists>k d'. protectNoteRecursively k d c True = Some d' \<and> protect_frame d d' \<and>
        (\<forall>y. (n_noteId c, y) \<in> R\<^sup>* \<longrightarrow> note_protected d' y \<and> revisions_protected d' y)"
      using less.IH [of "n_noteId c" d c] by simp
  qed
  then obtain k d2 where
    d2: "protect_children k ?cs True d1 = Some d2" "protect_frame d1 d2"
      "\<forall>c \<in> set ?cs. \<forall>y. (n_noteId c, y) \<in> R\<^sup>* \<longrightarrow>
           note_protected d2 y \<and> revisions_protected d2 y"
    by blast
  have run: "protectNoteRecursively (Suc k) d nt True = Some d2"
    using p d2(1) by simp
  have frame: "protect_frame d d2"
    using p1(2) d2(2) by (rule protect_frame_trans)
  have "note_protected d2 y \<and> revisions_protected d2 y" if "(x, y) \<in> R\<^sup>*" for y
    using that
  proof (cases rule: converse_rtranclE)
    case base
    with p1(3,4) d2(2) show ?thesis by (simp add: protect_frame_def)
  next
    case (step z)
    from step(1) obtain c where "c \<in> set ?cs" "n_noteId c = z"
      using child_rel_getChildNotes [of nt' z d1] by (auto simp: rel1 p1(1))
    with d2(3) step(2) show ?thesis by blast
  qed
  with run frame show ?case by blast
qed

text \<open>
  C6. In a store whose placement graph has no cycle and whose note identifiers are
  distinct, \<^verbatim>\<open>protectNoteRecursively(note, true)\<close> on a note of the store returns: there
  is an amount of fuel from which on every call returns the same store, and in that
  store every note reachable from the note through child placements, the note itself
  included, and every revision of each such note, has \<^verbatim>\<open>isProtected = true\<close>.
\<close>

theorem protectNoteRecursively_protects:
  assumes "acyclic (child_rel d)"
    and "distinct (map n_noteId (d_notes d))"
    and "note \<in> set (d_notes d)"
  shows "\<exists>fuel d'. (\<forall>fuel' \<ge> fuel. protectNoteRecursively fuel' d note True = Some d') \<and>
           (\<forall>y. (n_noteId note, y) \<in> (child_rel d)\<^sup>* \<longrightarrow>
              note_protected d' y \<and> revisions_protected d' y)"
proof -
  have "finite (child_rel d)"
    by (simp add: child_rel_def)
  with assms(1) have "wf ((child_rel d)\<inverse>)"
    by (simp add: finite_acyclic_wf)
  from protectNoteRecursively_returns [OF this refl assms(2) refl, of "note"] assms(2,3)
  obtain k d' where
    r: "protectNoteRecursively k d note True = Some d'"
      "\<forall>y. (n_noteId note, y) \<in> (child_rel d)\<^sup>* \<longrightarrow>
              note_protected d' y \<and> revisions_protected d' y"
    by (auto dest: row_protected)
  from r(1) have "\<forall>fuel' \<ge> k. protectNoteRecursively fuel' d note True = Some d'"
    by (auto intro: protectNoteRecursively_fuel)
  with r(2) show ?thesis by blast
qed

text \<open>
  On the example: the root, its child and its grandchild end protected, and so do the
  two revisions.
\<close>

theorem protectNoteRecursively_protects_witness:
  "acyclic (child_rel family_db) \<and>
   distinct (map n_noteId (d_notes family_db)) \<and>
   mk_Note ''R'' ''text'' '''' \<in> set (d_notes family_db) \<and>
   (\<exists>d'. protectNoteRecursively 3 family_db (mk_Note ''R'' ''text'' '''') True = Some d' \<and>
      note_protected d' ''R'' \<and> note_protected d' ''A'' \<and> note_protected d' ''B'' \<and>
      revisions_protected d' ''R'' \<and> revisions_protected d' ''B'' \<and>
      map (\<lambda>n. (n_noteId n, n_isProtected n)) (d_notes d') =
        [(''R'', Some True), (''A'', Some True), (''B'', Some True)] \<and>
      map (\<lambda>r. (r_noteRevisionId r, r_isProtected r)) (d_note_revisions d') =
        [(''r1'', Some True), (''r2'', Some True)])"
proof -
  have rel: "child_rel family_db = {(''R'', ''A''), (''A'', ''B'')}"
    by (auto simp: child_rel_def family_db_def empty_db_def mk_Note_def mk_Branch_def)
  have ac: "acyclic (child_rel family_db)"
    unfolding rel
    by (rule acyclicI_order [where f = "\<lambda>s. if s = ''R'' then 2 else if s = ''A'' then 1 else (0::nat)"])
      auto
  have dist: "distinct (map n_noteId (d_notes family_db))"
    by (simp add: family_db_def empty_db_def mk_Note_def)
  have row: "mk_Note ''R'' ''text'' '''' \<in> set (d_notes family_db)"
    by (simp add: family_db_def empty_db_def)
  have reach: "(''R'', ''R'') \<in> (child_rel family_db)\<^sup>*" "(''R'', ''A'') \<in> (child_rel family_db)\<^sup>*"
    "(''R'', ''B'') \<in> (child_rel family_db)\<^sup>*"
  proof -
    have a: "(''R'', ''A'') \<in> child_rel family_db" and b: "(''A'', ''B'') \<in> child_rel family_db"
      by (simp_all add: rel)
    show "(''R'', ''R'') \<in> (child_rel family_db)\<^sup>*" by simp
    show "(''R'', ''A'') \<in> (child_rel family_db)\<^sup>*" using a by (rule r_into_rtrancl)
    then show "(''R'', ''B'') \<in> (child_rel family_db)\<^sup>*" using b by (rule rtrancl_into_rtrancl)
  qed
  have "map_option
          (\<lambda>d'. (map (\<lambda>n. (n_noteId n, n_isProtected n)) (d_notes d'),
                 map (\<lambda>r. (r_noteRevisionId r, r_isProtected r)) (d_note_revisions d')))
          (protectNoteRecursively 3 family_db (mk_Note ''R'' ''text'' []) True) =
        Some ([(''R'', Some True), (''A'', Some True), (''B'', Some True)],
              [(''r1'', Some True), (''r2'', Some True)])"
    by code_simp
  then obtain c where c: "protectNoteRecursively 3 family_db (mk_Note ''R'' ''text'' []) True = Some c"
    "map (\<lambda>n. (n_noteId n, n_isProtected n)) (d_notes c) =
        [(''R'', Some True), (''A'', Some True), (''B'', Some True)]"
    "map (\<lambda>r. (r_noteRevisionId r, r_isProtected r)) (d_note_revisions c) =
        [(''r1'', Some True), (''r2'', Some True)]"
    by (auto simp: map_option_eq_Some)
  from protectNoteRecursively_protects [OF ac dist row] obtain fuel d' where
    t: "\<forall>fuel' \<ge> fuel. protectNoteRecursively fuel' family_db (mk_Note ''R'' ''text'' '''') True = Some d'"
      "\<forall>y. (n_noteId (mk_Note ''R'' ''text'' ''''), y) \<in> (child_rel family_db)\<^sup>* \<longrightarrow>
              note_protected d' y \<and> revisions_protected d' y"
    by blast
  have "protectNoteRecursively (max fuel 3) family_db (mk_Note ''R'' ''text'' '''') True = Some c"
    using c(1) by (rule protectNoteRecursively_fuel) simp
  moreover have "protectNoteRecursively (max fuel 3) family_db (mk_Note ''R'' ''text'' '''') True = Some d'"
    using t(1) by simp
  ultimately have "d' = c" by simp
  moreover have "n_noteId (mk_Note ''R'' ''text'' []) = ''R''"
    by (simp add: mk_Note_def)
  ultimately have post: "\<forall>y. (''R'', y) \<in> (child_rel family_db)\<^sup>* \<longrightarrow>
              note_protected c y \<and> revisions_protected c y"
    using t(2) by simp
  have p: "note_protected c ''R''" "note_protected c ''A''" "note_protected c ''B''"
    "revisions_protected c ''R''" "revisions_protected c ''B''"
    using post reach by blast+
  have "\<exists>d'. protectNoteRecursively 3 family_db (mk_Note ''R'' ''text'' []) True = Some d' \<and>
      note_protected d' ''R'' \<and> note_protected d' ''A'' \<and> note_protected d' ''B'' \<and>
      revisions_protected d' ''R'' \<and> revisions_protected d' ''B'' \<and>
      map (\<lambda>n. (n_noteId n, n_isProtected n)) (d_notes d') =
        [(''R'', Some True), (''A'', Some True), (''B'', Some True)] \<and>
      map (\<lambda>r. (r_noteRevisionId r, r_isProtected r)) (d_note_revisions d') =
        [(''r1'', Some True), (''r2'', Some True)]"
    using c p by (intro exI [of _ c] conjI)
  with ac dist row show ?thesis
    by (intro conjI)
qed

end
